theory Spec2Isabelle
  imports Main "HOL-Library.Sublist"
begin

section \<open>Text: Python strings as lists of code points\<close>

text \<open>
  A Python \<open>str\<close> is a sequence of Unicode code points; the byte-order mark U+FEFF that
  the script strips is one of them.  A character is therefore a natural number and a
  text a list of them.  \<open>str\<close> embeds an ASCII literal.
\<close>

type_synonym pystr = "nat list"

definition str :: "string \<Rightarrow> pystr" where
  "str s = map of_char s"

abbreviation LF :: nat where "LF \<equiv> 10"
abbreviation CR :: nat where "CR \<equiv> 13"
abbreviation BOM :: nat where "BOM \<equiv> 65279"
abbreviation SPC :: nat where "SPC \<equiv> 32"
abbreviation BSLASH :: nat where "BSLASH \<equiv> 92"
abbreviation SLASH :: nat where "SLASH \<equiv> 47"
abbreviation ATSIGN :: nat where "ATSIGN \<equiv> 64"
abbreviation LBRACE :: nat where "LBRACE \<equiv> 123"
abbreviation RBRACE :: nat where "RBRACE \<equiv> 125"

text \<open>
  \<open>str.isspace\<close>, the characters \<open>str.strip\<close> removes and the regular-expression class
  \<open>\s\<close> of a \<open>str\<close> pattern are one and the same set of 29 code points.
\<close>

definition is_space :: "nat \<Rightarrow> bool" where
  "is_space c \<longleftrightarrow>
     (9 \<le> c \<and> c \<le> 13) \<or> (28 \<le> c \<and> c \<le> 32) \<or> c = 133 \<or> c = 160 \<or> c = 5760
     \<or> (8192 \<le> c \<and> c \<le> 8202) \<or> c = 8232 \<or> c = 8233 \<or> c = 8239 \<or> c = 8287
     \<or> c = 12288"

text \<open>The line boundaries of \<open>str.splitlines\<close>.\<close>

definition is_linebreak :: "nat \<Rightarrow> bool" where
  "is_linebreak c \<longleftrightarrow>
     (10 \<le> c \<and> c \<le> 13) \<or> (28 \<le> c \<and> c \<le> 30) \<or> c = 133 \<or> c = 8232 \<or> c = 8233"

definition lstrip :: "pystr \<Rightarrow> pystr" where
  "lstrip s = dropWhile is_space s"

definition rstrip :: "pystr \<Rightarrow> pystr" where
  "rstrip s = rev (dropWhile is_space (rev s))"

definition strip :: "pystr \<Rightarrow> pystr" where
  "strip s = lstrip (rstrip s)"

text \<open>\<open>s.lstrip\<close> of the byte-order mark U+FEFF.\<close>

definition lstrip_bom :: "pystr \<Rightarrow> pystr" where
  "lstrip_bom s = dropWhile (\<lambda>c. c = BOM) s"

text \<open>\<open>s.startswith(p)\<close>, \<open>s.endswith(p)\<close> and \<open>p in s\<close>.\<close>

definition startswith :: "pystr \<Rightarrow> pystr \<Rightarrow> bool" where
  "startswith s p \<longleftrightarrow> take (length p) s = p"

definition endswith :: "pystr \<Rightarrow> pystr \<Rightarrow> bool" where
  "endswith s p \<longleftrightarrow> startswith (rev s) (rev p)"

fun contains :: "pystr \<Rightarrow> pystr \<Rightarrow> bool" where
  "contains [] p = (p = [])"
| "contains (c # s) p = (startswith (c # s) p \<or> contains s p)"

text \<open>\<open>s.find(p)\<close>: the index of the first occurrence, \<open>None\<close> for Python's \<open>-1\<close>.\<close>

fun find :: "pystr \<Rightarrow> pystr \<Rightarrow> nat option" where
  "find [] p = (if p = [] then Some 0 else None)"
| "find (c # s) p =
     (if startswith (c # s) p then Some 0 else map_option Suc (find s p))"

text \<open>\<open>s.count(c)\<close> for a one-character \<open>c\<close>.\<close>

definition count :: "pystr \<Rightarrow> nat \<Rightarrow> nat" where
  "count s c = length (filter (\<lambda>x. x = c) s)"

text \<open>\<open>"\n".join(lines)\<close>\<close>

fun join_nl :: "pystr list \<Rightarrow> pystr" where
  "join_nl [] = []"
| "join_nl [l] = l"
| "join_nl (l # m # ls) = l @ LF # join_nl (m # ls)"

text \<open>
  \<open>str.splitlines()\<close>: cut at every line boundary, \<open>\r\n\<close> counting as one; the empty
  text has no line, and a final boundary does not open another line.
\<close>

fun drop_break :: "pystr \<Rightarrow> pystr" where
  "drop_break [] = []"
| "drop_break [c] = []"
| "drop_break (c # d # s) = (if c = CR \<and> d = LF then s else d # s)"

function splitlines :: "pystr \<Rightarrow> pystr list" where
  "splitlines s =
     (if s = [] then []
      else takeWhile (\<lambda>c. \<not> is_linebreak c) s
             # splitlines (drop_break (dropWhile (\<lambda>c. \<not> is_linebreak c) s)))"
  by pat_completeness auto

lemma length_drop_break: "length (drop_break s) \<le> length s"
  by (induction s rule: drop_break.induct) auto

lemma length_drop_break_less: "s \<noteq> [] \<Longrightarrow> length (drop_break s) < length s"
  by (induction s rule: drop_break.induct) auto

lemma splitlines_decreases:
  "s \<noteq> [] \<Longrightarrow> length (drop_break (dropWhile P s)) < length s"
proof (cases "dropWhile P s = []")
  case True
  assume "s \<noteq> []"
  then show ?thesis unfolding True by simp
next
  case False
  then have "length (drop_break (dropWhile P s)) < length (dropWhile P s)"
    by (rule length_drop_break_less)
  also have "\<dots> \<le> length s"
    by (rule length_dropWhile_le)
  finally show ?thesis .
qed

termination splitlines
  by (relation "measure length") (auto intro: splitlines_decreases)

declare splitlines.simps [simp del]

section \<open>Regular expressions\<close>

text \<open>
  Every pattern of the script is a sequence of single characters and character classes,
  some of them under \<open>*\<close>, \<open>+\<close> or the lazy \<open>*?\<close>.  \<open>rx_match\<close> is the backtracking matcher
  of Python's \<open>re\<close> on such a sequence: a greedy quantifier first takes one more
  character, a lazy one first tries what follows.  It returns the text left after the
  match it finds first.
\<close>

datatype item = One "nat \<Rightarrow> bool" | Star "nat \<Rightarrow> bool" | Plus "nat \<Rightarrow> bool" | Lazy "nat \<Rightarrow> bool"

fun rx_match :: "item list \<Rightarrow> pystr \<Rightarrow> pystr option" where
  "rx_match [] s = Some s"
| "rx_match (One p # r) [] = None"
| "rx_match (One p # r) (c # s) = (if p c then rx_match r s else None)"
| "rx_match (Star p # r) [] = rx_match r []"
| "rx_match (Star p # r) (c # s) =
     (if p c then (case rx_match (Star p # r) s of Some x \<Rightarrow> Some x | None \<Rightarrow> rx_match r (c # s))
      else rx_match r (c # s))"
| "rx_match (Plus p # r) [] = None"
| "rx_match (Plus p # r) (c # s) = (if p c then rx_match (Star p # r) s else None)"
| "rx_match (Lazy p # r) [] = rx_match r []"
| "rx_match (Lazy p # r) (c # s) =
     (case rx_match r (c # s) of Some x \<Rightarrow> Some x
      | None \<Rightarrow> if p c then rx_match (Lazy p # r) s else None)"

text \<open>\<open>re.search\<close>: the first position where the pattern matches, as \<open>(start, end)\<close>.\<close>

fun rx_search_from :: "item list \<Rightarrow> nat \<Rightarrow> pystr \<Rightarrow> (nat \<times> nat) option" where
  "rx_search_from r i [] =
     (case rx_match r [] of Some x \<Rightarrow> Some (i, i) | None \<Rightarrow> None)"
| "rx_search_from r i (c # s) =
     (case rx_match r (c # s) of
        Some x \<Rightarrow> Some (i, i + (Suc (length s) - length x))
      | None \<Rightarrow> rx_search_from r (Suc i) s)"

definition rx_search :: "item list \<Rightarrow> pystr \<Rightarrow> (nat \<times> nat) option" where
  "rx_search r s = rx_search_from r 0 s"

text \<open>
  \<open>re.sub\<close> with a constant replacement.  No pattern of the script matches the empty
  text, so a match always consumes a character; the guard on the length states this.
\<close>

function rx_sub :: "item list \<Rightarrow> pystr \<Rightarrow> pystr \<Rightarrow> pystr" where
  "rx_sub r repl [] = []"
| "rx_sub r repl (c # s) =
     (case rx_match r (c # s) of
        Some x \<Rightarrow> if length x \<le> length s then repl @ rx_sub r repl x
                  else c # rx_sub r repl s
      | None \<Rightarrow> c # rx_sub r repl s)"
  by pat_completeness auto
termination
  by (relation "measure (\<lambda>(r, repl, s). length s)") auto

definition lit :: "string \<Rightarrow> item list" where
  "lit s = map (\<lambda>c. One (\<lambda>x. x = of_char c)) s"


section \<open>The brace balance\<close>

text \<open>
  \<open>strip_razor_comments\<close>.  The three patterns are written in raw strings, where
  \<open>\\*\<close> is a backslash under a star: \<open>@\\*.*?\\*@\<close> is an at sign, any number of
  backslashes, a shortest run of any characters (\<open>re.S\<close>), any number of backslashes
  and an at sign; likewise with a slash.  In \<open>//.*\<close> the dot stops at a line feed.
\<close>

definition razor_block_rx :: "item list" where
  "razor_block_rx =
     [One (\<lambda>c. c = ATSIGN), Star (\<lambda>c. c = BSLASH), Lazy (\<lambda>c. True),
      Star (\<lambda>c. c = BSLASH), One (\<lambda>c. c = ATSIGN)]"

definition cs_block_rx :: "item list" where
  "cs_block_rx =
     [One (\<lambda>c. c = SLASH), Star (\<lambda>c. c = BSLASH), Lazy (\<lambda>c. True),
      Star (\<lambda>c. c = BSLASH), One (\<lambda>c. c = SLASH)]"

definition cs_line_rx :: "item list" where
  "cs_line_rx = [One (\<lambda>c. c = SLASH), One (\<lambda>c. c = SLASH), Star (\<lambda>c. c \<noteq> LF)]"

definition strip_razor_comments :: "pystr \<Rightarrow> pystr" where
  "strip_razor_comments s =
     rx_sub cs_line_rx [] (rx_sub cs_block_rx [] (rx_sub razor_block_rx [] s))"

text \<open>The test that keeps a line of the block in \<open>code_lines\<close>.\<close>

definition is_code_line :: "pystr \<Rightarrow> bool" where
  "is_code_line ln =
     (let ls = lstrip ln
      in startswith ls (str ''@'') \<or> startswith ls (str ''{'') \<or> startswith ls (str ''}'')
         \<or> contains ls (str ''@if'') \<or> contains ls (str ''@foreach'')
         \<or> contains ls (str ''@switch''))"

definition brace_balance :: "pystr \<Rightarrow> bool \<times> nat \<times> nat" where
  "brace_balance block =
     (let code_lines = filter is_code_line (splitlines block);
          txt = strip_razor_comments (join_nl code_lines);
          opens = count txt LBRACE;
          closes = count txt RBRACE
      in (opens = closes, opens, closes))"

section \<open>The opening shape\<close>

text \<open>
  \<open>fail\<close> prints a message and leaves the process; here a failing function returns the
  error.  The errors carry what the message names.
\<close>

datatype error =
    StartMismatch string pystr
  | MissingOpenBrace string pystr
  | AutoFixFailed string nat nat
  | SurplusNotAtEOF string nat nat
  | BraceMismatch string nat nat
  | SectionMismatch string
  | MissingFile string
  | PatternError
  | StartNotFound string
  | EndAnchorNotFound string
  | ClosingNotFound string

text \<open>
  The loop that skips leading comments, on the rest \<open>s[i:]\<close> of the text: both tests of
  one round run in turn, and the loop ends with the first round that skips nothing.
\<close>

definition skip_html_comment :: "pystr \<Rightarrow> (pystr \<times> bool)" where
  "skip_html_comment s =
     (if take 4 s = str ''<!--'' then
        (case find s (str ''-->'') of
           Some e \<Rightarrow> (lstrip (drop (e + 3) s), True)
         | None \<Rightarrow> (s, False))
      else (s, False))"

definition skip_razor_comment :: "pystr \<Rightarrow> (pystr \<times> bool)" where
  "skip_razor_comment s =
     (if startswith s (str ''@*'') then
        (case find s (str ''*@'') of
           Some e \<Rightarrow> (lstrip (drop (e + 2) s), True)
         | None \<Rightarrow> (s, False))
      else (s, False))"

lemma length_lstrip: "length (lstrip s) \<le> length s"
  by (simp add: lstrip_def length_dropWhile_le)

lemma skip_html_comment_less:
  "skip_html_comment s = (t, True) \<Longrightarrow> length t < length s"
proof -
  assume h: "skip_html_comment s = (t, True)"
  then have s: "take 4 s = str ''<!--''"
    by (auto simp: skip_html_comment_def split: if_splits)
  then have "s \<noteq> []" by (auto simp: str_def)
  from h s obtain e where "t = lstrip (drop (e + 3) s)"
    by (auto simp: skip_html_comment_def split: option.splits)
  then have "length t \<le> length (drop (e + 3) s)"
    using length_lstrip [of "drop (e + 3) s"] by simp
  with \<open>s \<noteq> []\<close> show ?thesis by (cases s) auto
qed

lemma skip_html_comment_le:
  "skip_html_comment s = (t, b) \<Longrightarrow> length t \<le> length s"
  using skip_html_comment_less [of s t]
  by (cases b) (auto simp: skip_html_comment_def split: if_splits option.splits)

lemma skip_razor_comment_less:
  "skip_razor_comment s = (t, True) \<Longrightarrow> length t < length s"
proof -
  assume h: "skip_razor_comment s = (t, True)"
  then have s: "startswith s (str ''@*'')"
    by (auto simp: skip_razor_comment_def split: if_splits)
  then have "s \<noteq> []" by (auto simp: str_def startswith_def)
  from h s obtain e where "t = lstrip (drop (e + 2) s)"
    by (auto simp: skip_razor_comment_def split: option.splits)
  then have "length t \<le> length (drop (e + 2) s)"
    using length_lstrip [of "drop (e + 2) s"] by simp
  with \<open>s \<noteq> []\<close> show ?thesis by (cases s) auto
qed

lemma skip_razor_comment_le:
  "skip_razor_comment s = (t, b) \<Longrightarrow> length t \<le> length s"
  using skip_razor_comment_less [of s t]
  by (cases b) (auto simp: skip_razor_comment_def split: if_splits option.splits)

function skip_leading_comments :: "pystr \<Rightarrow> pystr" where
  "skip_leading_comments s =
     (case skip_html_comment s of (s1, adv1) \<Rightarrow>
        (case skip_razor_comment s1 of (s2, adv2) \<Rightarrow>
           if adv1 \<or> adv2 then skip_leading_comments s2 else s2))"
  by pat_completeness auto
termination
proof (relation "measure length", goal_cases)
  case 1
  show ?case by simp
next
  case (2 s x1 x2 x1a x2a)
  then have "skip_html_comment s = (x1, x2)" "skip_razor_comment x1 = (x1a, x2a)"
    by simp_all
  with 2(3) show ?case
    using skip_html_comment_less [of s x1] skip_html_comment_le [of s x1 x2]
      skip_razor_comment_less [of x1 x1a] skip_razor_comment_le [of x1 x1a x2a]
    by auto
qed

declare skip_leading_comments.simps [simp del]

text \<open>The pattern \<open>@if\s*\([^\)]*\)\s*\{\<close> that \<open>re.search\<close> looks for in the head.\<close>

definition if_open_rx :: "item list" where
  "if_open_rx =
     lit ''@if'' @ [Star is_space] @ lit ''('' @ [Star (\<lambda>c. c \<noteq> of_char CHR '')'')]
       @ lit '')'' @ [Star is_space] @ lit ''{''"

definition ensure_starts_with_if_block :: "string \<Rightarrow> pystr \<Rightarrow> pystr \<Rightarrow> error + unit" where
  "ensure_starts_with_if_block name block start_literal =
     (let s = lstrip_bom block;
          head = skip_leading_comments (lstrip s)
      in if \<not> startswith head start_literal then Inl (StartMismatch name start_literal)
         else if rx_search if_open_rx head = None then Inl (MissingOpenBrace name start_literal)
         else Inr ())"

section \<open>Validation and repair\<close>

text \<open>The loop that trims surplus closing braces from the end of the block.\<close>

function trim_loop :: "nat \<Rightarrow> nat \<Rightarrow> pystr \<Rightarrow> nat \<times> pystr" where
  "trim_loop need trimmed t =
     (if trimmed < need \<and> endswith t (str ''}'')
      then trim_loop need (Suc trimmed) (rstrip (butlast t))
      else (trimmed, t))"
  by pat_completeness auto
termination
  by (relation "measure (\<lambda>(need, trimmed, t). need - trimmed)") auto

declare trim_loop.simps [simp del]

text \<open>
  \<open>validate_and_maybe_fix\<close>; the module constant \<open>AUTO_FIX_BRACES\<close>, read from the
  environment once, is the first argument.
\<close>

definition validate_and_maybe_fix :: "bool \<Rightarrow> string \<Rightarrow> pystr \<Rightarrow> pystr \<Rightarrow> error + pystr" where
  "validate_and_maybe_fix auto_fix_braces name expected start_literal =
     (case ensure_starts_with_if_block name expected start_literal of
        Inl e \<Rightarrow> Inl e
      | Inr _ \<Rightarrow>
         (case brace_balance expected of (ok, opens, closes) \<Rightarrow>
            if ok then Inr expected
            else let delta = int opens - int closes in
              if delta > 0 \<and> auto_fix_braces then
                (let fixed = rstrip expected @ (LF # replicate (nat delta) RBRACE) @ [LF]
                 in case brace_balance fixed of (ok2, o2, c2) \<Rightarrow>
                      if ok2 then Inr fixed else Inl (AutoFixFailed name o2 c2))
              else if delta < 0 then
                (let need = nat (- delta)
                 in case trim_loop need 0 (rstrip expected) of (trimmed, t) \<Rightarrow>
                      if trimmed = need \<and> fst (brace_balance t) then Inr t
                      else Inl (SurplusNotAtEOF name opens closes))
              else Inl (BraceMismatch name opens closes)))"


section \<open>Head noise and comparison\<close>

text \<open>
  \<open>_strip_leading_noise\<close>.  The index \<open>i\<close> of the source only moves forward, so the loops
  run on the list \<open>lines[i:]\<close>.  \<open>after_closer\<close> is the inner search for the first line
  from \<open>j = i\<close> on that contains the closer: it returns the lines from \<open>j + 1\<close> on.
\<close>

definition is_blank :: "pystr \<Rightarrow> bool" where
  "is_blank l \<longleftrightarrow> strip l = []"

fun after_closer :: "pystr \<Rightarrow> pystr list \<Rightarrow> pystr list option" where
  "after_closer tok [] = None"
| "after_closer tok (l # ls) = (if contains l tok then Some ls else after_closer tok ls)"

lemma after_closer_length: "after_closer tok ls = Some r \<Longrightarrow> length r < length ls"
  by (induction ls) (auto split: if_splits)

function drop_leading_comments :: "pystr list \<Rightarrow> pystr list" where
  "drop_leading_comments [] = []"
| "drop_leading_comments (l # ls) =
     (let line = lstrip l in
      if startswith line (str ''<!--'') then
        (case after_closer (str ''-->'') (l # ls) of
           None \<Rightarrow> l # ls
         | Some r \<Rightarrow> drop_leading_comments (dropWhile is_blank r))
      else if startswith line (str ''@*'') then
        (case after_closer (str ''*@'') (l # ls) of
           None \<Rightarrow> l # ls
         | Some r \<Rightarrow> drop_leading_comments (dropWhile is_blank r))
      else l # ls)"
  by pat_completeness auto
termination
proof (relation "measure length", goal_cases)
  case 1
  show ?case by simp
next
  case (2 l ls line r)
  then show ?case
    using after_closer_length [of "str ''-->''" "l # ls" r] length_dropWhile_le [of is_blank r]
    by simp
next
  case (3 l ls line r)
  then show ?case
    using after_closer_length [of "str ''*@''" "l # ls" r] length_dropWhile_le [of is_blank r]
    by simp
qed

definition noise_free_lines :: "pystr list \<Rightarrow> pystr list" where
  "noise_free_lines ls = drop_leading_comments (dropWhile is_blank ls)"

definition strip_leading_noise :: "pystr \<Rightarrow> pystr" where
  "strip_leading_noise s = join_nl (noise_free_lines (splitlines (lstrip_bom s)))"

section \<open>Evaluation on concrete blocks\<close>

named_theorems ev \<open>definitions unfolded to run the model on a concrete text\<close>

lemmas [ev] = str_def splitlines.simps is_linebreak_def is_code_line_def lstrip_def rstrip_def
  strip_def is_space_def startswith_def endswith_def strip_razor_comments_def
  razor_block_rx_def cs_block_rx_def cs_line_rx_def count_def brace_balance_def lstrip_bom_def
  skip_html_comment_def skip_razor_comment_def skip_leading_comments.simps if_open_rx_def
  lit_def rx_search_def ensure_starts_with_if_block_def validate_and_maybe_fix_def
  trim_loop.simps is_blank_def noise_free_lines_def strip_leading_noise_def

text \<open>The opening guard of the Student section, and a small balanced block under it.\<close>

definition student_literal :: pystr where
  "student_literal = str ''@if (!isInitializedAsStudentUser)''"

definition balanced_block :: pystr where
  "balanced_block =
     str ''@if (!isInitializedAsStudentUser)'' @ [LF] @ str ''{'' @ [LF]
       @ str ''<div></div>'' @ [LF] @ str ''}''"

lemma balanced_block_ensure:
  "ensure_starts_with_if_block ''Student'' balanced_block student_literal = Inr ()"
  by (simp add: balanced_block_def student_literal_def ev)

lemma balanced_block_balance: "brace_balance balanced_block = (True, 1, 1)"
  by (simp add: balanced_block_def ev)

section \<open>C7: a balanced block is returned unchanged\<close>

text \<open>
  C7.  For every block text whose \<open>brace_balance\<close> reports \<open>openCount\<close> equal to
  \<open>closeCount\<close> and which passes the opening-shape check, \<open>validate_and_maybe_fix\<close>
  returns exactly the input block, whatever the auto-repair flag.
\<close>

theorem validate_balanced_unchanged:
  assumes "ensure_starts_with_if_block name block start_literal = Inr ()"
    and "fst (brace_balance block)"
  shows "validate_and_maybe_fix auto_fix name block start_literal = Inr block"
  using assms by (cases "brace_balance block") (simp add: validate_and_maybe_fix_def)

theorem validate_balanced_unchanged_witness:
  "ensure_starts_with_if_block ''Student'' balanced_block student_literal = Inr ()
   \<and> fst (brace_balance balanced_block)
   \<and> validate_and_maybe_fix False ''Student'' balanced_block student_literal
       = Inr balanced_block"
  using validate_balanced_unchanged [of "''Student''" balanced_block student_literal False]
  by (simp add: balanced_block_ensure balanced_block_balance)

section \<open>C1: braces inside comments\<close>

text \<open>
  C1.  The claim: before the braces are counted the significant lines are stripped of
  Razor block comments, C\# block comments and C\# line comments, so that a brace
  inside a comment never counts.  The patterns do not do that.  In the first block
  below the \<open>{\<close> after \<open>//\<close> is counted: the second pattern removes the two slashes as an
  empty block comment and leaves the rest of the line.  In the second block the \<open>}\<close>
  inside \<open>@* } *@\<close> is counted and the \<open>{\<close> of the guard is not: the first pattern
  removes the text from the first at sign to the next one.
\<close>

theorem brace_balance_counts_commented_braces:
  "brace_balance (str ''@if (x) { // {'' @ [LF] @ str ''}'') = (False, 2, 1)
   \<and> brace_balance (str ''@if (x) {'' @ [LF] @ str ''@* } *@'' @ [LF] @ str ''}'')
       = (False, 0, 2)"
  by (simp add: ev)


section \<open>Lines: \<open>splitlines\<close> and \<open>join\<close>\<close>

lemma splitlines_Nil [simp]: "splitlines [] = []"
  by (simp add: splitlines.simps)

lemma is_linebreak_LF [simp]: "is_linebreak LF"
  by (simp add: is_linebreak_def)

lemma splitlines_line:
  assumes "\<forall>x\<in>set l. \<not> is_linebreak x"
  shows "splitlines (l @ LF # rest) = l # splitlines rest"
proof -
  have t: "takeWhile (\<lambda>c. \<not> is_linebreak c) (l @ LF # rest) = l"
    using assms by (simp add: takeWhile_append2)
  have d: "dropWhile (\<lambda>c. \<not> is_linebreak c) (l @ LF # rest) = LF # rest"
    using assms by (simp add: dropWhile_append2)
  have b: "drop_break (LF # rest) = rest"
    by (cases rest) simp_all
  show ?thesis
    by (subst splitlines.simps) (simp add: t d b)
qed

lemma splitlines_single:
  assumes "l \<noteq> []" and "\<forall>x\<in>set l. \<not> is_linebreak x"
  shows "splitlines l = [l]"
proof -
  have t: "takeWhile (\<lambda>c. \<not> is_linebreak c) l = l"
    using assms by (simp add: takeWhile_eq_all_conv)
  have d: "dropWhile (\<lambda>c. \<not> is_linebreak c) l = []"
    using assms by simp
  show ?thesis
    by (subst splitlines.simps) (simp add: t d assms)
qed

lemma splitlines_no_break:
  "l \<in> set (splitlines s) \<Longrightarrow> x \<in> set l \<Longrightarrow> \<not> is_linebreak x"
proof (induction s rule: splitlines.induct)
  case (1 s)
  show ?case
  proof (cases "s = []")
    case True
    with 1 show ?thesis by simp
  next
    case False
    from 1(2) False have "l = takeWhile (\<lambda>c. \<not> is_linebreak c) s
        \<or> l \<in> set (splitlines (drop_break (dropWhile (\<lambda>c. \<not> is_linebreak c) s)))"
      by (subst (asm) splitlines.simps) simp
    then show ?thesis
    proof
      assume "l = takeWhile (\<lambda>c. \<not> is_linebreak c) s"
      with 1(3) show ?thesis by (auto dest: set_takeWhileD)
    next
      assume "l \<in> set (splitlines (drop_break (dropWhile (\<lambda>c. \<not> is_linebreak c) s)))"
      with 1(1) [OF False] 1(3) show ?thesis by simp
    qed
  qed
qed

lemma splitlines_join:
  "\<forall>l\<in>set r. \<forall>x\<in>set l. \<not> is_linebreak x \<Longrightarrow> r = [] \<or> last r \<noteq> []
     \<Longrightarrow> splitlines (join_nl r) = r"
proof (induction r rule: join_nl.induct)
  case 1
  show ?case by simp
next
  case (2 l)
  then show ?case by (simp add: splitlines_single)
next
  case (3 l m ls)
  then show ?case by (simp add: splitlines_line)
qed

section \<open>The head of a text\<close>

lemma strip_Nil_iff: "strip l = [] \<longleftrightarrow> (\<forall>c\<in>set l. is_space c)"
proof -
  have "strip l = [] \<longleftrightarrow> (\<forall>c\<in>set (rev (dropWhile is_space (rev l))). is_space c)"
    by (simp add: strip_def lstrip_def rstrip_def dropWhile_eq_Nil_conv)
  also have "\<dots> \<longleftrightarrow> (\<forall>c\<in>set l. is_space c)"
  proof
    assume a: "\<forall>c\<in>set (rev (dropWhile is_space (rev l))). is_space c"
    have "set l = set (takeWhile is_space (rev l)) \<union> set (dropWhile is_space (rev l))"
      by (metis set_append set_rev takeWhile_dropWhile_id)
    with a show "\<forall>c\<in>set l. is_space c"
      by (auto dest: set_takeWhileD)
  next
    assume "\<forall>c\<in>set l. is_space c"
    then show "\<forall>c\<in>set (rev (dropWhile is_space (rev l))). is_space c"
      by (auto dest: set_dropWhileD)
  qed
  finally show ?thesis .
qed

lemma is_blank_iff: "is_blank l \<longleftrightarrow> (\<forall>c\<in>set l. is_space c)"
  by (simp add: is_blank_def strip_Nil_iff)

lemma lstrip_Nil_iff: "lstrip l = [] \<longleftrightarrow> is_blank l"
  by (simp add: lstrip_def is_blank_iff dropWhile_eq_Nil_conv)

lemma startswith_not_blank:
  "startswith (lstrip l) p \<Longrightarrow> p \<noteq> [] \<Longrightarrow> \<not> is_blank l"
  by (auto simp: startswith_def lstrip_Nil_iff [symmetric])

lemma str_nonempty [simp]: "str ''<!--'' \<noteq> []" "str ''@*'' \<noteq> []"
  by (simp_all add: str_def)

lemma dlc_fixed: "drop_leading_comments (drop_leading_comments ls) = drop_leading_comments ls"
  by (induction ls rule: drop_leading_comments.induct)
     (auto simp: Let_def split: option.splits)

lemma dlc_head:
  "ls = [] \<or> \<not> is_blank (hd ls)
     \<Longrightarrow> drop_leading_comments ls = [] \<or> \<not> is_blank (hd (drop_leading_comments ls))"
proof (induction ls rule: drop_leading_comments.induct)
  case 1
  show ?case by simp
next
  case (2 l ls)
  have db: "\<And>r. dropWhile is_blank r = [] \<or> \<not> is_blank (hd (dropWhile is_blank r))"
    by (metis hd_dropWhile)
  show ?case
  proof (cases "startswith (lstrip l) (str ''<!--'')")
    case True
    show ?thesis
    proof (cases "after_closer (str ''-->'') (l # ls)")
      case None
      with True 2(3) show ?thesis by (simp add: Let_def)
    next
      case (Some r)
      with True 2(1) [OF refl True Some db] show ?thesis by (simp add: Let_def)
    qed
  next
    case nh: False
    show ?thesis
    proof (cases "startswith (lstrip l) (str ''@*'')")
      case True
      show ?thesis
      proof (cases "after_closer (str ''*@'') (l # ls)")
        case None
        with nh True 2(3) show ?thesis by (simp add: Let_def)
      next
        case (Some r)
        with nh True 2(2) [OF refl nh True Some db] show ?thesis by (simp add: Let_def)
      qed
    next
      case False
      with nh 2(3) show ?thesis by (simp add: Let_def)
    qed
  qed
qed

lemma noise_free_lines_fixed: "noise_free_lines (noise_free_lines ls) = noise_free_lines ls"
proof -
  let ?r = "drop_leading_comments (dropWhile is_blank ls)"
  have "dropWhile is_blank ls = [] \<or> \<not> is_blank (hd (dropWhile is_blank ls))"
    by (metis hd_dropWhile)
  then have "?r = [] \<or> \<not> is_blank (hd ?r)" by (rule dlc_head)
  then have "dropWhile is_blank ?r = ?r" by (cases ?r) auto
  then show ?thesis by (simp add: noise_free_lines_def dlc_fixed)
qed

lemma after_closer_suffix: "after_closer tok ls = Some r \<Longrightarrow> suffix r ls"
  by (induction ls) (auto split: if_splits intro: suffix_ConsI)

lemma dlc_suffix: "suffix (drop_leading_comments ls) ls"
proof (induction ls rule: drop_leading_comments.induct)
  case 1
  show ?case by simp
next
  case (2 l ls)
  have a: "suffix (drop_leading_comments (dropWhile is_blank r)) (l # ls)"
    if "after_closer tok (l # ls) = Some r"
      and "suffix (drop_leading_comments (dropWhile is_blank r)) (dropWhile is_blank r)"
    for tok r
    using that by (meson after_closer_suffix suffix_dropWhile suffix_order.trans)
  show ?case
  proof (cases "startswith (lstrip l) (str ''<!--'')")
    case True
    show ?thesis
    proof (cases "after_closer (str ''-->'') (l # ls)")
      case None
      with True show ?thesis by (simp add: Let_def)
    next
      case (Some r)
      from a [OF Some 2(1) [OF refl True Some]] True Some show ?thesis
        by (simp add: Let_def)
    qed
  next
    case nh: False
    show ?thesis
    proof (cases "startswith (lstrip l) (str ''@*'')")
      case True
      show ?thesis
      proof (cases "after_closer (str ''*@'') (l # ls)")
        case None
        with nh True show ?thesis by (simp add: Let_def)
      next
        case (Some r)
        from a [OF Some 2(2) [OF refl nh True Some]] nh True Some show ?thesis
          by (simp add: Let_def)
      qed
    next
      case False
      with nh show ?thesis by (simp add: Let_def)
    qed
  qed
qed

lemma noise_free_lines_suffix: "suffix (noise_free_lines ls) ls"
  unfolding noise_free_lines_def
  by (meson dlc_suffix suffix_dropWhile suffix_order.trans)

lemma lstrip_bom_id: "\<not> startswith s [BOM] \<Longrightarrow> lstrip_bom s = s"
  by (cases s) (auto simp: startswith_def lstrip_bom_def)

lemma join_nl_ends_LF:
  "last r = [] \<Longrightarrow> 2 \<le> length r \<Longrightarrow> endswith (join_nl r) [LF]"
proof (induction r rule: join_nl.induct)
  case 1
  then show ?case by simp
next
  case (2 l)
  then show ?case by simp
next
  case (3 l m ls)
  show ?case
  proof (cases ls)
    case Nil
    with 3(2) show ?thesis by (simp add: endswith_def startswith_def)
  next
    case (Cons a as)
    with 3 have "endswith (join_nl (m # ls)) [LF]" by simp
    then show ?thesis
      by (cases "rev (join_nl (m # ls))") (auto simp: endswith_def startswith_def)
  qed
qed

lemma noise_free_lines_no_break:
  "l \<in> set (noise_free_lines (splitlines s)) \<Longrightarrow> x \<in> set l \<Longrightarrow> \<not> is_linebreak x"
  using noise_free_lines_suffix [of "splitlines s"] splitlines_no_break [of l s x]
  by (auto dest: set_mono_suffix)

lemma strip_leading_noise_Nil [simp]: "strip_leading_noise [] = []"
  by (simp add: strip_leading_noise_def lstrip_bom_def noise_free_lines_def)


section \<open>C8: normalising the head twice\<close>

text \<open>
  C8 as stated: for every input text \<open>x\<close>,
  \<open>_strip_leading_noise(_strip_leading_noise(x))\<close> equals \<open>_strip_leading_noise(x)\<close>.
  This fails on \<open>"a\n\n"\<close>: the lines are \<open>"a"\<close> and \<open>""\<close>, joined to \<open>"a\n"\<close>, whose
  only line is \<open>"a"\<close>.
\<close>

theorem strip_leading_noise_not_idempotent:
  "strip_leading_noise (strip_leading_noise [97, LF, LF]) \<noteq> strip_leading_noise [97, LF, LF]"
  by (simp add: ev)

text \<open>
  C8, amended: for every input text \<open>x\<close> whose normalised form neither begins with a
  byte-order mark nor ends with a line feed, normalising again changes nothing.  (The
  function strips the mark only at the very start of its input, and joining the lines
  forgets an empty last line.)
\<close>

theorem strip_leading_noise_idempotent:
  assumes "\<not> startswith (strip_leading_noise x) [BOM]"
    and "\<not> endswith (strip_leading_noise x) [LF]"
  shows "strip_leading_noise (strip_leading_noise x) = strip_leading_noise x"
proof -
  define r where "r = noise_free_lines (splitlines (lstrip_bom x))"
  have sx: "strip_leading_noise x = join_nl r"
    by (simp add: strip_leading_noise_def r_def)
  have nb: "\<forall>l\<in>set r. \<forall>c\<in>set l. \<not> is_linebreak c"
    unfolding r_def by (blast dest: noise_free_lines_no_break)
  have fx: "noise_free_lines r = r"
    unfolding r_def by (rule noise_free_lines_fixed)
  have bom: "lstrip_bom (join_nl r) = join_nl r"
    using assms(1) by (simp add: sx lstrip_bom_id)
  show ?thesis
  proof (cases "r = [] \<or> last r \<noteq> []")
    case True
    with nb have "splitlines (join_nl r) = r" by (rule splitlines_join)
    then show ?thesis
      by (simp add: sx strip_leading_noise_def [of "join_nl r"] bom fx)
  next
    case False
    then have ne: "r \<noteq> []" and le: "last r = []" by simp_all
    have "\<not> 2 \<le> length r"
      using join_nl_ends_LF [OF le] assms(2) by (auto simp: sx)
    with ne le have "r = [[]]"
      by (cases r) (auto simp: not_le less_Suc_eq_le split: if_splits)
    then show ?thesis by (simp add: sx)
  qed
qed

theorem strip_leading_noise_idempotent_witness:
  "\<not> startswith (strip_leading_noise (str ''<!-- c -->'' @ [CR, LF] @ str ''x'' @ [LF])) [BOM]
   \<and> \<not> endswith (strip_leading_noise (str ''<!-- c -->'' @ [CR, LF] @ str ''x'' @ [LF])) [LF]
   \<and> strip_leading_noise (strip_leading_noise (str ''<!-- c -->'' @ [CR, LF] @ str ''x'' @ [LF]))
       = strip_leading_noise (str ''<!-- c -->'' @ [CR, LF] @ str ''x'' @ [LF])"
proof -
  have v: "strip_leading_noise (str ''<!-- c -->'' @ [CR, LF] @ str ''x'' @ [LF]) = str ''x''"
    by (simp add: ev)
  have h1: "\<not> startswith (str ''x'') [BOM]" by (simp add: ev)
  have h2: "\<not> endswith (str ''x'') [LF]" by (simp add: ev)
  show ?thesis
    using strip_leading_noise_idempotent [of "str ''<!-- c -->'' @ [CR, LF] @ str ''x'' @ [LF]"]
    unfolding v using h1 h2 by simp
qed


section \<open>C2: the opening shape\<close>



section \<open>C10: the head is normalised line by line\<close>

lemma drop_break_append:
  "d \<noteq> [] \<Longrightarrow> tl d \<noteq> [] \<Longrightarrow> drop_break (d @ b) = drop_break d @ b"
  by (induction d rule: drop_break.induct) auto



lemma set_join_nl: "set (join_nl r) \<subseteq> insert LF (\<Union> (set ` set r))"
  by (induction r rule: join_nl.induct) auto



lemma noise_free_lines_blank [simp]: "noise_free_lines [[]] = []" "noise_free_lines [] = []"
  by (simp_all add: noise_free_lines_def is_blank_iff)


lemma splitlines_join_append:
  "\<forall>l\<in>set ls. \<forall>x\<in>set l. \<not> is_linebreak x \<Longrightarrow> ls \<noteq> []
    \<Longrightarrow> splitlines (join_nl ls @ LF # rest) = ls @ splitlines rest"
  by (induction ls rule: join_nl.induct) (simp_all add: splitlines_line)

lemma contains_Nil [simp]: "contains s [] "
  by (cases s) (simp_all add: startswith_def)

lemma after_closer_found:
  "\<forall>l\<in>set cs. \<not> contains l tok \<Longrightarrow> contains c tok
    \<Longrightarrow> after_closer tok (cs @ c # ls) = Some ls"
  by (induction cs) auto

lemma opener_first_char:
  assumes "startswith (lstrip l) p" and "p \<noteq> []" and "hd p \<noteq> BOM"
  shows "l \<noteq> [] \<and> hd l \<noteq> BOM"
proof -
  from assms(1,2) have ne: "lstrip l \<noteq> []" by (auto simp: startswith_def)
  then have l: "l \<noteq> []" by (auto simp: lstrip_def)
  have "hd (lstrip l) = hd p"
    using assms(1,2) by (metis hd_take length_greater_0_conv startswith_def)
  with assms(3) have "hd (lstrip l) \<noteq> BOM" by simp
  moreover have "is_space (hd l) \<or> lstrip l = l"
    using l by (cases l) (auto simp: lstrip_def)
  moreover have "\<not> is_space BOM" by (simp add: is_space_def)
  ultimately show ?thesis using l by metis
qed

lemma razor_not_html:
  "startswith line (str ''@*'') \<Longrightarrow> \<not> startswith line (str ''<!--'')"
  by (cases line) (auto simp: startswith_def str_def)

lemma leading_comment_line_dropped:
  assumes nb: "\<forall>l\<in>set (cs @ [c]). \<forall>x\<in>set l. \<not> is_linebreak x"
    and op: "(opener, closer) = (str ''<!--'', str ''-->'')
             \<or> (opener, closer) = (str ''@*'', str ''*@'')"
    and st: "startswith (lstrip (hd (cs @ [c]))) opener"
    and nc: "\<forall>l\<in>set cs. \<not> contains l closer"
    and cl: "contains c closer"
  shows "strip_leading_noise (join_nl (cs @ [c]) @ LF # rest)
           = join_nl (noise_free_lines (splitlines rest))"
proof -
  obtain l0 ls0 where l0: "cs @ [c] = l0 # ls0" by (cases "cs @ [c]") auto
  have one: "opener \<noteq> []" "hd opener \<noteq> BOM"
    using op by (auto simp: str_def)
  from st l0 have s0: "startswith (lstrip l0) opener" by simp
  from opener_first_char [OF s0 one] have f: "l0 \<noteq> []" "hd l0 \<noteq> BOM" by simp_all
  have nbl: "\<not> is_blank l0"
    using startswith_not_blank [OF s0 one(1)] .
  have "join_nl (l0 # ls0) @ LF # rest \<noteq> []" by simp
  moreover have "hd (join_nl (l0 # ls0) @ LF # rest) = hd l0"
    using f(1) by (cases ls0) simp_all
  ultimately have bom: "lstrip_bom (join_nl (cs @ [c]) @ LF # rest) = join_nl (cs @ [c]) @ LF # rest"
    using f(2) unfolding l0 lstrip_bom_def
    by (cases "join_nl (l0 # ls0) @ LF # rest") auto
  have sp: "splitlines (join_nl (cs @ [c]) @ LF # rest) = cs @ c # splitlines rest"
    using splitlines_join_append [OF nb, of rest] by simp
  have ac: "after_closer closer (l0 # ls0 @ splitlines rest) = Some (splitlines rest)"
    using after_closer_found [OF nc cl, of "splitlines rest"] l0
    by (metis append_Cons append_assoc append_Nil)
  have dl: "drop_leading_comments (l0 # ls0 @ splitlines rest)
          = drop_leading_comments (dropWhile is_blank (splitlines rest))"
    using op
  proof
    assume "(opener, closer) = (str ''<!--'', str ''-->'')"
    with s0 ac show ?thesis by (simp add: Let_def del: after_closer.simps)
  next
    assume "(opener, closer) = (str ''@*'', str ''*@'')"
    with s0 ac razor_not_html [of "lstrip l0"] show ?thesis
      by (simp add: Let_def del: after_closer.simps)
  qed
  have eq: "cs @ c # splitlines rest = l0 # ls0 @ splitlines rest"
    using l0 by (metis append_Cons append_assoc append_Nil)
  have "noise_free_lines (cs @ c # splitlines rest)
          = noise_free_lines (l0 # ls0 @ splitlines rest)"
    by (simp only: eq)
  also have "\<dots> = drop_leading_comments (l0 # ls0 @ splitlines rest)"
    using nbl by (simp add: noise_free_lines_def del: drop_leading_comments.simps)
  also have "\<dots> = drop_leading_comments (dropWhile is_blank (splitlines rest))"
    by (rule dl)
  also have "\<dots> = noise_free_lines (splitlines rest)"
    by (simp only: noise_free_lines_def)
  finally have "noise_free_lines (cs @ c # splitlines rest) = noise_free_lines (splitlines rest)" .
  then show ?thesis
    by (simp add: strip_leading_noise_def bom sp)
qed




lemma dropWhile_all:
  "\<forall>x\<in>set xs. P x \<Longrightarrow> dropWhile P (xs @ ys) = dropWhile P ys"
  by (induction xs) auto

lemma rstrip_eq:
  assumes "block = t @ w" and "\<forall>c\<in>set w. is_space c" and "t = [] \<or> \<not> is_space (last t)"
  shows "rstrip block = t"
proof -
  have "dropWhile is_space (rev w @ rev t) = dropWhile is_space (rev t)"
    using assms(2) by (simp add: dropWhile_all)
  moreover have "dropWhile is_space (rev t) = rev t"
    using assms(3) by (cases "rev t") (auto simp: last_rev [symmetric] hd_rev)
  ultimately show ?thesis using assms(1) by (simp add: rstrip_def)
qed














section \<open>The comment patterns, as they are written\<close>

text \<open>What the two block patterns match: from a delimiter to the next one.\<close>

definition pair_rx :: "nat \<Rightarrow> item list" where
  "pair_rx d = [One (\<lambda>c. c = d), Star (\<lambda>c. c = BSLASH), Lazy (\<lambda>c. True),
                Star (\<lambda>c. c = BSLASH), One (\<lambda>c. c = d)]"

lemma razor_block_rx_pair: "razor_block_rx = pair_rx ATSIGN"
  by (simp add: razor_block_rx_def pair_rx_def)

lemma cs_block_rx_pair: "cs_block_rx = pair_rx SLASH"
  by (simp add: cs_block_rx_def pair_rx_def)

definition after_next :: "nat \<Rightarrow> pystr \<Rightarrow> pystr option" where
  "after_next d s = (if d \<in> set s then Some (tl (dropWhile (\<lambda>c. c \<noteq> d) s)) else None)"

lemma after_next_Cons:
  "after_next d (c # s) = (if c = d then Some s else after_next d s)"
  by (simp add: after_next_def)

lemma after_next_Nil [simp]: "after_next d [] = None"
  by (simp add: after_next_def)

lemma match_tail:
  assumes "d \<noteq> BSLASH"
  shows "rx_match [Star (\<lambda>c. c = BSLASH), One (\<lambda>c. c = d)] s
           = (case dropWhile (\<lambda>c. c = BSLASH) s of [] \<Rightarrow> None
              | c # r \<Rightarrow> if c = d then Some r else None)"
  using assms by (induction s) (auto split: list.splits option.splits)

lemma match_tail_Some:
  assumes "d \<noteq> BSLASH"
    and "rx_match [Star (\<lambda>c. c = BSLASH), One (\<lambda>c. c = d)] s = Some x"
  shows "after_next d s = Some x"
  using assms
proof (induction s)
  case Nil
  then show ?case by simp
next
  case (Cons c s)
  then show ?case
    by (auto simp: after_next_Cons split: option.splits if_splits)
qed

lemma match_tail_None:
  assumes "rx_match [Star (\<lambda>c. c = BSLASH), One (\<lambda>c. c = d)] (c # s) = None"
  shows "c \<noteq> d"
  using assms by (auto split: option.splits if_splits)

lemma match_lazy:
  assumes "d \<noteq> BSLASH"
  shows "rx_match [Lazy (\<lambda>c. True), Star (\<lambda>c. c = BSLASH), One (\<lambda>c. c = d)] s = after_next d s"
proof (induction s)
  case Nil
  show ?case by simp
next
  case (Cons c s)
  show ?case
  proof (cases "rx_match [Star (\<lambda>c. c = BSLASH), One (\<lambda>c. c = d)] (c # s)")
    case None
    from match_tail_None [OF None] have "c \<noteq> d" .
    with None Cons show ?thesis by (simp add: after_next_Cons)
  next
    case (Some x)
    from match_tail_Some [OF assms Some] Some show ?thesis by simp
  qed
qed

lemma match_star_lazy:
  assumes "d \<noteq> BSLASH"
  shows "rx_match [Star (\<lambda>c. c = BSLASH), Lazy (\<lambda>c. True), Star (\<lambda>c. c = BSLASH),
                   One (\<lambda>c. c = d)] s = after_next d s"
proof (induction s)
  case Nil
  show ?case by simp
next
  case (Cons c s)
  have l: "rx_match [Lazy (\<lambda>c. True), Star (\<lambda>c. c = BSLASH), One (\<lambda>c. c = d)] (c # s)
             = after_next d (c # s)"
    by (rule match_lazy [OF assms])
  show ?case
  proof (cases "c = BSLASH")
    case True
    then have "c \<noteq> d" using assms by simp
    with True Cons l show ?thesis
      by (simp add: after_next_Cons split: option.splits del: rx_match.simps(9))
  next
    case False
    with l show ?thesis by (simp del: rx_match.simps(9))
  qed
qed

lemma match_pair:
  assumes "d \<noteq> BSLASH"
  shows "rx_match (pair_rx d) s = (case s of [] \<Rightarrow> None
            | c # r \<Rightarrow> if c = d then after_next d r else None)"
  using match_star_lazy [OF assms] by (cases s) (simp_all add: pair_rx_def)

lemma after_next_length: "after_next d s = Some x \<Longrightarrow> length x < length s"
  by (induction s) (auto simp: after_next_Cons split: if_splits)

lemma after_next_append:
  "d \<notin> set u \<Longrightarrow> after_next d (s @ u) = map_option (\<lambda>x. x @ u) (after_next d s)"
  by (induction s) (auto simp: after_next_Cons after_next_def)

lemma sub_pair_Cons:
  assumes "d \<noteq> BSLASH"
  shows "rx_sub (pair_rx d) [] (c # s)
           = (if c = d then (case after_next d s of Some x \<Rightarrow> rx_sub (pair_rx d) [] x
                             | None \<Rightarrow> c # rx_sub (pair_rx d) [] s)
              else c # rx_sub (pair_rx d) [] s)"
  using after_next_length [of d s]
  by (auto simp: match_pair [OF assms] split: option.splits)

lemma sub_pair_no_delim:
  assumes "d \<noteq> BSLASH"
  shows "d \<notin> set u \<Longrightarrow> rx_sub (pair_rx d) [] u = u"
proof (induction u)
  case Nil
  show ?case by simp
next
  case (Cons c u)
  then show ?case by (simp add: sub_pair_Cons [OF assms] del: rx_sub.simps)
qed

lemma sub_pair_append:
  assumes "d \<noteq> BSLASH" and "d \<notin> set u"
  shows "rx_sub (pair_rx d) [] (s @ u) = rx_sub (pair_rx d) [] s @ u"
proof (induction s rule: length_induct)
  case (1 s)
  show ?case
  proof (cases s)
    case Nil
    with assms show ?thesis by (simp add: sub_pair_no_delim)
  next
    case (Cons c r)
    show ?thesis
    proof (cases "c = d")
      case False
      with Cons 1 show ?thesis
        by (simp add: sub_pair_Cons [OF assms(1)] del: rx_sub.simps)
    next
      case True
      show ?thesis
      proof (cases "after_next d r")
        case None
        with True Cons 1 assms(2) show ?thesis
          by (simp add: sub_pair_Cons [OF assms(1)] after_next_append del: rx_sub.simps)
      next
        case (Some x)
        from after_next_length [OF Some] Cons have "length x < length s" by simp
        with 1 have "rx_sub (pair_rx d) [] (x @ u) = rx_sub (pair_rx d) [] x @ u" by blast
        with True Cons Some assms(2) show ?thesis
          by (simp add: sub_pair_Cons [OF assms(1)] after_next_append del: rx_sub.simps)
      qed
    qed
  qed
qed

lemma sub_pair_count:
  assumes "d \<noteq> BSLASH"
  shows "count (rx_sub (pair_rx d) [] s) d \<le> 1"
proof (induction s rule: length_induct)
  case (1 s)
  show ?case
  proof (cases s)
    case Nil
    then show ?thesis by (simp add: count_def)
  next
    case (Cons c r)
    show ?thesis
    proof (cases "c = d")
      case False
      from 1 Cons have "count (rx_sub (pair_rx d) [] r) d \<le> 1" by simp
      with False Cons show ?thesis
        by (simp add: sub_pair_Cons [OF assms] count_def del: rx_sub.simps)
    next
      case True
      show ?thesis
      proof (cases "after_next d r")
        case None
        then have "d \<notin> set r" by (simp add: after_next_def split: if_splits)
        then have "rx_sub (pair_rx d) [] r = r" "count r d = 0"
          by (auto simp: sub_pair_no_delim [OF assms] count_def filter_empty_conv)
        with True Cons None show ?thesis
          by (simp add: sub_pair_Cons [OF assms] count_def del: rx_sub.simps)
      next
        case (Some x)
        from after_next_length [OF Some] Cons have "length x < length s" by simp
        with 1 have "count (rx_sub (pair_rx d) [] x) d \<le> 1" by blast
        with True Cons Some show ?thesis
          by (simp add: sub_pair_Cons [OF assms] del: rx_sub.simps)
      qed
    qed
  qed
qed

lemma sub_line_id:
  "count s SLASH \<le> 1 \<Longrightarrow> rx_sub cs_line_rx [] s = s"
proof (induction s)
  case Nil
  show ?case by simp
next
  case (Cons c s)
  have m: "rx_match cs_line_rx (c # s) = None"
  proof (cases "c = SLASH")
    case True
    with Cons(2) have "SLASH \<notin> set s"
      by (auto simp: count_def filter_empty_conv)
    with True show ?thesis by (cases s) (auto simp: cs_line_rx_def)
  next
    case False
    then show ?thesis by (simp add: cs_line_rx_def)
  qed
  from Cons have "rx_sub cs_line_rx [] s = s"
    by (auto simp: count_def split: if_splits)
  with m show ?case by simp
qed

lemma strip_razor_comments_eq:
  "strip_razor_comments s = rx_sub cs_block_rx [] (rx_sub razor_block_rx [] s)"
  unfolding strip_razor_comments_def cs_block_rx_pair
  by (rule sub_line_id) (rule sub_pair_count, simp)

lemma strip_razor_comments_append:
  assumes "ATSIGN \<notin> set u" and "SLASH \<notin> set u"
  shows "strip_razor_comments (s @ u) = strip_razor_comments s @ u"
  using assms
  by (simp add: strip_razor_comments_eq cs_block_rx_pair razor_block_rx_pair sub_pair_append)

section \<open>Lines of a text with a tail\<close>

lemma splitlines_nonempty: "t \<noteq> [] \<Longrightarrow> splitlines t \<noteq> []"
  by (subst splitlines.simps) simp

lemma splitlines_append:
  "t \<noteq> [] \<Longrightarrow> \<not> is_linebreak (last t) \<Longrightarrow>
     splitlines (t @ s)
       = butlast (splitlines t) @ [last (splitlines t) @ takeWhile (\<lambda>c. \<not> is_linebreak c) s]
           @ splitlines (drop_break (dropWhile (\<lambda>c. \<not> is_linebreak c) s))"
proof (induction t rule: splitlines.induct)
  case (1 t)
  let ?nlb = "\<lambda>c. \<not> is_linebreak c"
  let ?rest = "splitlines (drop_break (dropWhile ?nlb s))"
  show ?case
  proof (cases "\<forall>x\<in>set t. ?nlb x")
    case True
    then have "takeWhile ?nlb (t @ s) = t @ takeWhile ?nlb s"
      "dropWhile ?nlb (t @ s) = dropWhile ?nlb s"
      by (simp_all add: takeWhile_append2 dropWhile_append2)
    then have "splitlines (t @ s) = (t @ takeWhile ?nlb s) # ?rest"
      using 1(2) by (subst splitlines.simps) simp
    moreover have "splitlines t = [t]"
      using 1(2) True by (simp add: splitlines_single)
    ultimately show ?thesis by simp
  next
    case False
    let ?d = "dropWhile ?nlb t"
    from False have tw: "takeWhile ?nlb (t @ s) = takeWhile ?nlb t"
      and dw: "dropWhile ?nlb (t @ s) = ?d @ s"
      by (auto simp: takeWhile_append1 dropWhile_append1)
    from False have dne: "?d \<noteq> []" by (auto simp: dropWhile_eq_Nil_conv)
    then have hd: "is_linebreak (hd ?d)" using hd_dropWhile [of ?nlb t] by simp
    have ld: "last ?d = last t"
      using dne by (metis last_appendR takeWhile_dropWhile_id)
    from hd ld 1(3) dne have tl: "tl ?d \<noteq> []"
      by (cases ?d) (auto split: if_splits)
    have db: "drop_break (?d @ s) = drop_break ?d @ s"
      using dne tl by (rule drop_break_append)
    have dbne: "drop_break ?d \<noteq> []" and dbl: "last (drop_break ?d) = last t"
    proof -
      obtain c1 c2 r where d: "?d = c1 # c2 # r"
        using dne tl by (cases ?d; cases "tl ?d") auto
      show "drop_break ?d \<noteq> []"
        using d ld 1(3) by (auto simp: is_linebreak_def split: if_splits)
      show "last (drop_break ?d) = last t"
        using d ld 1(3) by (auto simp: is_linebreak_def split: if_splits)
    qed
    have ih: "splitlines (drop_break ?d @ s)
        = butlast (splitlines (drop_break ?d))
            @ [last (splitlines (drop_break ?d)) @ takeWhile ?nlb s] @ ?rest"
      using 1(1) [OF 1(2) dbne] dbl 1(3) by simp
    have a: "splitlines (t @ s) = takeWhile ?nlb t # splitlines (drop_break ?d @ s)"
      using 1(2) by (subst splitlines.simps) (simp add: tw dw db)
    have b: "splitlines t = takeWhile ?nlb t # splitlines (drop_break ?d)"
      using 1(2) by (subst splitlines.simps) simp
    have ne: "splitlines (drop_break ?d) \<noteq> []"
      using dbne by (rule splitlines_nonempty)
    show ?thesis
      unfolding a b ih using ne by simp
  qed
qed

lemma last_splitlines:
  "t \<noteq> [] \<Longrightarrow> \<not> is_linebreak (last t)
     \<Longrightarrow> last (splitlines t) \<noteq> [] \<and> last (last (splitlines t)) = last t"
proof (induction t rule: splitlines.induct)
  case (1 t)
  let ?nlb = "\<lambda>c. \<not> is_linebreak c"
  show ?case
  proof (cases "\<forall>x\<in>set t. ?nlb x")
    case True
    then have "splitlines t = [t]"
      using 1(2) by (simp add: splitlines_single)
    with 1(2) show ?thesis by simp
  next
    case False
    let ?d = "dropWhile ?nlb t"
    from False have dne: "?d \<noteq> []" by (auto simp: dropWhile_eq_Nil_conv)
    then have hd: "is_linebreak (hd ?d)" using hd_dropWhile [of ?nlb t] by simp
    have ld: "last ?d = last t"
      using dne by (metis last_appendR takeWhile_dropWhile_id)
    from hd ld 1(3) dne have tl: "tl ?d \<noteq> []"
      by (cases ?d) (auto split: if_splits)
    have dbne: "drop_break ?d \<noteq> []" and dbl: "last (drop_break ?d) = last t"
    proof -
      obtain c1 c2 r where d: "?d = c1 # c2 # r"
        using dne tl by (cases ?d; cases "tl ?d") auto
      show "drop_break ?d \<noteq> []"
        using d ld 1(3) by (auto simp: is_linebreak_def split: if_splits)
      show "last (drop_break ?d) = last t"
        using d ld 1(3) by (auto simp: is_linebreak_def split: if_splits)
    qed
    have ih: "last (splitlines (drop_break ?d)) \<noteq> []
        \<and> last (last (splitlines (drop_break ?d))) = last t"
      using 1(1) [OF 1(2) dbne] dbl 1(3) by simp
    have b: "splitlines t = takeWhile ?nlb t # splitlines (drop_break ?d)"
      using 1(2) by (subst splitlines.simps) simp
    have ne: "splitlines (drop_break ?d) \<noteq> []"
      using dbne by (rule splitlines_nonempty)
    show ?thesis
      unfolding b using ne ih by simp
  qed
qed

lemma set_drop_break: "set (drop_break s) \<subseteq> set s"
  by (induction s rule: drop_break.induct) auto

lemma splitlines_subset: "l \<in> set (splitlines s) \<Longrightarrow> set l \<subseteq> set s"
proof (induction s rule: splitlines.induct)
  case (1 s)
  let ?nlb = "\<lambda>c. \<not> is_linebreak c"
  show ?case
  proof (cases "s = []")
    case True
    with 1(2) show ?thesis by simp
  next
    case False
    from 1(2) False have "l = takeWhile ?nlb s
        \<or> l \<in> set (splitlines (drop_break (dropWhile ?nlb s)))"
      by (subst (asm) splitlines.simps) simp
    then show ?thesis
    proof
      assume "l = takeWhile ?nlb s"
      then show ?thesis by (auto dest: set_takeWhileD)
    next
      assume "l \<in> set (splitlines (drop_break (dropWhile ?nlb s)))"
      from 1(1) [OF False this] have "set l \<subseteq> set (drop_break (dropWhile ?nlb s))" .
      also have "\<dots> \<subseteq> set (dropWhile ?nlb s)" by (rule set_drop_break)
      also have "\<dots> \<subseteq> set s" by (auto dest: set_dropWhileD)
      finally show ?thesis .
    qed
  qed
qed

text \<open>Counting a character that is no line boundary, line by line.\<close>

lemma count_append [simp]: "count (a @ b) c = count a c + count b c"
  by (simp add: count_def)

lemma count_Cons: "count (x # a) c = (if x = c then 1 else 0) + count a c"
  by (simp add: count_def)

lemma count_drop_break:
  assumes "\<not> is_linebreak c"
  shows "s = [] \<or> is_linebreak (hd s) \<Longrightarrow> count (drop_break s) c = count s c"
  using assms by (induction s rule: drop_break.induct) (auto simp: count_def is_linebreak_def)

lemma count_splitlines:
  assumes "\<not> is_linebreak c"
  shows "sum_list (map (\<lambda>l. count l c) (splitlines s)) = count s c"
proof (induction s rule: splitlines.induct)
  case (1 s)
  let ?nlb = "\<lambda>c. \<not> is_linebreak c"
  show ?case
  proof (cases "s = []")
    case True
    then show ?thesis by (simp add: count_def)
  next
    case False
    have hd: "dropWhile ?nlb s = [] \<or> is_linebreak (hd (dropWhile ?nlb s))"
      using hd_dropWhile [of ?nlb s] by auto
    have "sum_list (map (\<lambda>l. count l c) (splitlines s))
        = count (takeWhile ?nlb s) c
          + sum_list (map (\<lambda>l. count l c) (splitlines (drop_break (dropWhile ?nlb s))))"
      using False by (subst splitlines.simps) simp
    also have "\<dots> = count (takeWhile ?nlb s) c + count (drop_break (dropWhile ?nlb s)) c"
      using 1 [OF False] by simp
    also have "\<dots> = count (takeWhile ?nlb s) c + count (dropWhile ?nlb s) c"
      using count_drop_break [OF assms hd] by simp
    also have "\<dots> = count s c"
      by (metis count_append takeWhile_dropWhile_id)
    finally show ?thesis .
  qed
qed

section \<open>Code lines and counted braces\<close>

text \<open>
  \<open>closer_text\<close>: a text of whitespace and closing braces only.  \<open>code_text\<close>: the
  text \<open>brace_balance\<close> joins from the lines it keeps, before the comments are stripped.
\<close>

definition closer_text :: "pystr \<Rightarrow> bool" where
  "closer_text s \<longleftrightarrow> (\<forall>c\<in>set s. is_space c \<or> c = RBRACE)"

definition code_text :: "pystr \<Rightarrow> pystr" where
  "code_text block = join_nl (filter is_code_line (splitlines block))"

lemma brace_balance_code_text:
  "brace_balance block =
     (count (strip_razor_comments (code_text block)) LBRACE
        = count (strip_razor_comments (code_text block)) RBRACE,
      count (strip_razor_comments (code_text block)) LBRACE,
      count (strip_razor_comments (code_text block)) RBRACE)"
  by (simp add: brace_balance_def code_text_def Let_def)

lemma not_space_RBRACE [simp]: "\<not> is_space RBRACE" "\<not> is_space LBRACE" "\<not> is_space ATSIGN"
  "\<not> is_space SLASH" "is_space LF"
  by (simp_all add: is_space_def)

lemma linebreak_is_space: "is_linebreak c \<Longrightarrow> is_space c"
  by (auto simp: is_linebreak_def is_space_def)

lemma startswith_append: "startswith x p \<Longrightarrow> startswith (x @ y) p"
  unfolding startswith_def
  by (metis append_eq_conv_conj append_take_drop_id take_append length_take min.absorb2
        nat_le_linear take_all)

lemma contains_append: "contains x p \<Longrightarrow> contains (x @ y) p"
proof (induction x)
  case Nil
  then show ?case by simp
next
  case (Cons c x)
  then show ?case using startswith_append [of "c # x" p y] by auto
qed

lemma startswith_set: "startswith s p \<Longrightarrow> set p \<subseteq> set s"
  unfolding startswith_def by (metis set_take_subset)

lemma contains_set: "contains s p \<Longrightarrow> set p \<subseteq> set s"
proof (induction s)
  case Nil
  then show ?case by simp
next
  case (Cons c s)
  then show ?case using startswith_set [of "c # s" p] by auto
qed

lemma startswith_append_disjoint:
  assumes "startswith (x @ w) p" and "\<forall>c\<in>set w. c \<notin> set p"
  shows "startswith x p"
proof -
  from assms(1) have p: "p = take (length p) x @ take (length p - length x) w"
    by (simp add: startswith_def)
  have "take (length p - length x) w = []"
  proof (rule ccontr)
    assume "take (length p - length x) w \<noteq> []"
    then obtain c where c: "c \<in> set (take (length p - length x) w)"
      by (cases "take (length p - length x) w") auto
    then have "c \<in> set w" by (rule in_set_takeD)
    moreover from c p have "c \<in> set p" by (metis Un_iff set_append)
    ultimately show False using assms(2) by blast
  qed
  with p show ?thesis by (simp add: startswith_def)
qed

lemma contains_append_disjoint:
  assumes "\<forall>c\<in>set w. c \<notin> set p" and "p \<noteq> []"
  shows "contains (x @ w) p \<Longrightarrow> contains x p"
proof (induction x)
  case Nil
  then have "set p \<subseteq> set w" by (auto dest: contains_set)
  with assms show ?case by (cases p) auto
next
  case (Cons c x)
  from Cons(2) have "startswith ((c # x) @ w) p \<or> contains (x @ w) p" by simp
  then show ?case
  proof
    assume "startswith ((c # x) @ w) p"
    from startswith_append_disjoint [OF this assms(1)] show ?thesis by simp
  next
    assume "contains (x @ w) p"
    with Cons(1) show ?thesis by simp
  qed
qed

lemma lstrip_append: "\<not> is_blank l \<Longrightarrow> lstrip (l @ s) = lstrip l @ s"
  by (auto simp: lstrip_def is_blank_iff dropWhile_append1)

lemma is_code_line_not_blank: "is_code_line l \<Longrightarrow> \<not> is_blank l"
proof
  assume c: "is_code_line l" and "is_blank l"
  then have "lstrip l = []" by (simp add: lstrip_Nil_iff)
  with c show False by (simp add: is_code_line_def startswith_def str_def)
qed

lemma is_code_line_append: "is_code_line l \<Longrightarrow> is_code_line (l @ s)"
proof -
  assume c: "is_code_line l"
  then have "lstrip (l @ s) = lstrip l @ s"
    by (simp add: is_code_line_not_blank lstrip_append)
  with c show ?thesis
    by (auto simp: is_code_line_def Let_def intro: startswith_append contains_append)
qed

lemma is_code_line_append_space:
  assumes "\<not> is_blank l" and "\<forall>c\<in>set w. is_space c" and "is_code_line (l @ w)"
  shows "is_code_line l"
proof -
  have ls: "lstrip (l @ w) = lstrip l @ w"
    using assms(1) by (rule lstrip_append)
  have d: "\<forall>c\<in>set w. c \<notin> set p"
    if "p \<in> {str ''@'', str ''{'', str ''}'', str ''@if'', str ''@foreach'', str ''@switch''}"
    for p
    using that assms(2) by (auto simp: str_def is_space_def)
  have sw: "startswith (lstrip l) p" if "startswith (lstrip l @ w) p"
    and "p \<in> {str ''@'', str ''{'', str ''}'', str ''@if'', str ''@foreach'', str ''@switch''}"
    for p
    using startswith_append_disjoint [OF that(1) d [OF that(2)]] .
  have ct: "contains (lstrip l) p" if "contains (lstrip l @ w) p"
    and "p \<in> {str ''@'', str ''{'', str ''}'', str ''@if'', str ''@foreach'', str ''@switch''}"
    for p
  proof -
    from that(2) have "p \<noteq> []" by (auto simp: str_def)
    from contains_append_disjoint [OF d [OF that(2)] this that(1)] show ?thesis .
  qed
  from assms(3) have "startswith (lstrip l @ w) (str ''@'') \<or> startswith (lstrip l @ w) (str ''{'')
      \<or> startswith (lstrip l @ w) (str ''}'') \<or> contains (lstrip l @ w) (str ''@if'')
      \<or> contains (lstrip l @ w) (str ''@foreach'') \<or> contains (lstrip l @ w) (str ''@switch'')"
    by (simp add: is_code_line_def Let_def ls)
  then have "startswith (lstrip l) (str ''@'') \<or> startswith (lstrip l) (str ''{'')
      \<or> startswith (lstrip l) (str ''}'') \<or> contains (lstrip l) (str ''@if'')
      \<or> contains (lstrip l) (str ''@foreach'') \<or> contains (lstrip l) (str ''@switch'')"
    by (elim disjE) (simp_all add: sw ct)
  then show ?thesis by (simp add: is_code_line_def Let_def)
qed

lemma is_code_line_closer:
  assumes "closer_text l"
  shows "is_code_line l \<longleftrightarrow> RBRACE \<in> set l"
proof
  assume c: "is_code_line l"
  show "RBRACE \<in> set l"
  proof (rule ccontr)
    assume "RBRACE \<notin> set l"
    with assms have "is_blank l" by (auto simp: closer_text_def is_blank_iff)
    with c show False by (simp add: is_code_line_not_blank)
  qed
next
  assume r: "RBRACE \<in> set l"
  then have ne: "dropWhile is_space l \<noteq> []"
    by (auto simp: dropWhile_eq_Nil_conv intro!: bexI [of _ RBRACE])
  then have "\<not> is_space (hd (dropWhile is_space l))"
    using hd_dropWhile by blast
  moreover have "hd (dropWhile is_space l) \<in> set l"
    using ne by (metis hd_in_set set_dropWhileD)
  ultimately have "hd (dropWhile is_space l) = RBRACE"
    using assms by (auto simp: closer_text_def)
  with ne have "startswith (lstrip l) (str ''}'')"
    by (cases "dropWhile is_space l") (auto simp: startswith_def lstrip_def str_def)
  then show "is_code_line l" by (simp add: is_code_line_def)
qed

lemma join_nl_append:
  "join_nl (P @ Q) = join_nl P @ (if P = [] \<or> Q = [] then [] else [LF]) @ join_nl Q"
proof (induction P rule: join_nl.induct)
  case 1
  show ?case by simp
next
  case (2 l)
  show ?case by (cases Q) simp_all
next
  case (3 l m ls)
  then show ?case by simp
qed

lemma count_join_nl:
  "c \<noteq> LF \<Longrightarrow> count (join_nl F) c = sum_list (map (\<lambda>l. count l c) F)"
  by (induction F rule: join_nl.induct) (simp_all add: count_def)

lemma sum_list_filter_zero:
  "\<forall>l\<in>set Y. \<not> P l \<longrightarrow> f l = (0::nat) \<Longrightarrow> sum_list (map f (filter P Y)) = sum_list (map f Y)"
  by (induction Y) auto

lemma closer_text_join:
  "\<forall>l\<in>set F. closer_text l \<Longrightarrow> closer_text (join_nl F)"
  using set_join_nl [of F] not_space_RBRACE(5) by (fastforce simp: closer_text_def)

lemma closer_text_lines:
  assumes "closer_text s" and "l \<in> set (splitlines s)"
  shows "closer_text l"
  using assms splitlines_subset [of l s] by (auto simp: closer_text_def)

lemma count_zero_iff: "count l c = 0 \<longleftrightarrow> c \<notin> set l"
  by (auto simp: count_def filter_empty_conv)

text \<open>The code lines of a text of whitespace and closing braces hold all its braces.\<close>

lemma code_lines_closer:
  assumes "closer_text r"
  shows "closer_text (join_nl (filter is_code_line (splitlines r)))"
    and "count (join_nl (filter is_code_line (splitlines r))) RBRACE = count r RBRACE"
proof -
  let ?Y = "splitlines r"
  have cl: "\<forall>l\<in>set ?Y. closer_text l"
    using assms by (blast intro: closer_text_lines)
  then show "closer_text (join_nl (filter is_code_line ?Y))"
    by (auto intro: closer_text_join)
  have "count (join_nl (filter is_code_line ?Y)) RBRACE
      = sum_list (map (\<lambda>l. count l RBRACE) (filter is_code_line ?Y))"
    by (simp add: count_join_nl)
  also have "\<dots> = sum_list (map (\<lambda>l. count l RBRACE) ?Y)"
    using cl by (intro sum_list_filter_zero) (auto simp: is_code_line_closer count_zero_iff)
  also have "\<dots> = count r RBRACE"
    by (rule count_splitlines) (simp add: is_linebreak_def)
  finally show "count (join_nl (filter is_code_line ?Y)) RBRACE = count r RBRACE" .
qed

lemma closer_text_parts:
  assumes "closer_text s"
  shows "closer_text (takeWhile P s)" and "closer_text (dropWhile P s)"
    and "closer_text (drop_break s)"
  using assms set_drop_break [of s]
  by (auto simp: closer_text_def dest: set_takeWhileD set_dropWhileD)

lemma code_text_append:
  assumes t: "t = [] \<or> \<not> is_space (last t)"
    and s: "closer_text s"
    and h: "t = [] \<or> is_code_line (last (splitlines t))
            \<or> RBRACE \<notin> set (takeWhile (\<lambda>c. \<not> is_linebreak c) s)"
  shows "\<exists>u. code_text (t @ s) = code_text t @ u \<and> closer_text u
              \<and> count u RBRACE = count s RBRACE"
proof (cases "t = []")
  case True
  have "code_text [] = []" by (simp add: code_text_def)
  with True code_lines_closer [OF s] show ?thesis
    by (auto simp: code_text_def)
next
  case False
  let ?nlb = "\<lambda>c. \<not> is_linebreak c"
  let ?X = "splitlines t"
  let ?L = "last ?X"
  let ?A = "butlast ?X"
  let ?s0 = "takeWhile ?nlb s"
  let ?r = "drop_break (dropWhile ?nlb s)"
  let ?F = "filter is_code_line (splitlines ?r)"
  let ?B = "filter is_code_line ?A"
  from t False have nsp: "\<not> is_space (last t)" by simp
  then have nlb: "\<not> is_linebreak (last t)" by (auto dest: linebreak_is_space)
  have lines: "splitlines (t @ s) = ?A @ [?L @ ?s0] @ splitlines ?r"
    using False nlb by (rule splitlines_append)
  have X: "?X = ?A @ [?L]"
    using splitlines_nonempty [OF False] by simp
  from last_splitlines [OF False nlb] nsp have Lnb: "\<not> is_blank ?L"
    by (metis is_blank_iff last_in_set)
  have r: "closer_text ?r"
    using s by (simp add: closer_text_parts)
  have s0: "closer_text ?s0"
    using s by (simp add: closer_text_parts)
  have hd: "dropWhile ?nlb s = [] \<or> is_linebreak (hd (dropWhile ?nlb s))"
    using hd_dropWhile [of ?nlb s] by auto
  have cnt: "count ?s0 RBRACE + count ?r RBRACE = count s RBRACE"
  proof -
    have "count ?r RBRACE = count (dropWhile ?nlb s) RBRACE"
      by (rule count_drop_break [OF _ hd]) (simp add: is_linebreak_def)
    then show ?thesis by (metis count_append takeWhile_dropWhile_id)
  qed
  have ct: "code_text t = join_nl (filter is_code_line (?A @ [?L]))"
    using X by (simp add: code_text_def)
  have cts: "code_text (t @ s) = join_nl (filter is_code_line (?A @ [?L @ ?s0]) @ ?F)"
    by (simp add: code_text_def lines)
  show ?thesis
  proof (cases "is_code_line ?L")
    case True
    then have c2: "is_code_line (?L @ ?s0)" by (rule is_code_line_append)
    let ?u = "?s0 @ (if ?F = [] then [] else [LF]) @ join_nl ?F"
    have f1: "filter is_code_line (?A @ [?L @ ?s0]) = ?B @ [?L @ ?s0]"
      using c2 by simp
    have f2: "filter is_code_line (?A @ [?L]) = ?B @ [?L]"
      using True by simp
    have j1: "join_nl ((?B @ [?L @ ?s0]) @ ?F)
        = join_nl (?B @ [?L @ ?s0]) @ (if ?F = [] then [] else [LF]) @ join_nl ?F"
      using join_nl_append [of "?B @ [?L @ ?s0]" ?F] by simp
    have j2: "join_nl (?B @ [?L @ ?s0]) = join_nl (?B @ [?L]) @ ?s0"
      using join_nl_append [of ?B "[?L @ ?s0]"] join_nl_append [of ?B "[?L]"] by simp
    have "code_text (t @ s) = code_text t @ ?u"
      unfolding cts ct f1 f2 j1 j2 by simp
    moreover have "closer_text ?u"
      using s0 code_lines_closer(1) [OF r] by (auto simp: closer_text_def)
    moreover have "count ?u RBRACE = count s RBRACE"
      using cnt code_lines_closer(2) [OF r] by (simp add: count_def)
    ultimately show ?thesis by blast
  next
    case nc: False
    with h False have "RBRACE \<notin> set ?s0" by simp
    with s0 have sp: "\<forall>c\<in>set ?s0. is_space c" by (auto simp: closer_text_def)
    have c2: "\<not> is_code_line (?L @ ?s0)"
      using is_code_line_append_space [OF Lnb sp] nc by blast
    let ?u = "(if ?B = [] \<or> ?F = [] then [] else [LF]) @ join_nl ?F"
    have f1: "filter is_code_line (?A @ [?L @ ?s0]) = ?B"
      using c2 by simp
    have f2: "filter is_code_line (?A @ [?L]) = ?B"
      using nc by simp
    have "code_text (t @ s) = code_text t @ ?u"
      unfolding cts ct f1 f2 using join_nl_append [of ?B ?F] by simp
    moreover have "closer_text ?u"
      using code_lines_closer(1) [OF r] by (auto simp: closer_text_def)
    moreover have "count ?s0 RBRACE = 0"
      using \<open>RBRACE \<notin> set ?s0\<close> by (simp add: count_zero_iff)
    then have "count ?u RBRACE = count s RBRACE"
      using cnt code_lines_closer(2) [OF r] by (simp add: count_def)
    ultimately show ?thesis by blast
  qed
qed

text \<open>What appending whitespace and closing braces does to the balance.\<close>

lemma brace_balance_append:
  assumes t: "t = [] \<or> \<not> is_space (last t)"
    and s: "closer_text s"
    and h: "t = [] \<or> is_code_line (last (splitlines t))
            \<or> RBRACE \<notin> set (takeWhile (\<lambda>c. \<not> is_linebreak c) s)"
    and b: "brace_balance t = (ok, opens, closes)"
  shows "brace_balance (t @ s)
           = (opens = closes + count s RBRACE, opens, closes + count s RBRACE)"
proof -
  from code_text_append [OF t s h] obtain u where
    u: "code_text (t @ s) = code_text t @ u" "closer_text u" "count u RBRACE = count s RBRACE"
    by blast
  from u(2) have nu: "ATSIGN \<notin> set u" "SLASH \<notin> set u" "LBRACE \<notin> set u"
    by (auto simp: closer_text_def)
  have st: "strip_razor_comments (code_text (t @ s)) = strip_razor_comments (code_text t) @ u"
    unfolding u(1) using nu(1,2) by (rule strip_razor_comments_append)
  from b have o: "opens = count (strip_razor_comments (code_text t)) LBRACE"
    and c: "closes = count (strip_razor_comments (code_text t)) RBRACE"
    by (simp_all add: brace_balance_code_text)
  have "count u LBRACE = 0" using nu(3) by (simp add: count_zero_iff)
  then show ?thesis
    by (simp add: brace_balance_code_text st o c u(3))
qed

section \<open>The two repairs\<close>

lemma rstrip_decomp: "\<exists>w. e = rstrip e @ w \<and> (\<forall>c\<in>set w. is_space c)"
proof -
  let ?w = "rev (takeWhile is_space (rev e))"
  have "rev e = takeWhile is_space (rev e) @ dropWhile is_space (rev e)" by simp
  then have "rev (rev e) = rev (dropWhile is_space (rev e)) @ ?w"
    by (metis rev_append)
  then have "e = rstrip e @ ?w" by (simp add: rstrip_def)
  moreover have "\<forall>c\<in>set ?w. is_space c" by (auto dest: set_takeWhileD)
  ultimately show ?thesis by blast
qed

lemma rstrip_last: "rstrip e = [] \<or> \<not> is_space (last (rstrip e))"
proof (cases "dropWhile is_space (rev e)")
  case Nil
  then show ?thesis by (simp add: rstrip_def)
next
  case (Cons c r)
  then have "\<not> is_space c" using hd_dropWhile [of is_space "rev e"] by auto
  with Cons show ?thesis by (simp add: rstrip_def)
qed

lemma count_Nil [simp]: "count [] c = 0"
  by (simp add: count_def)

lemma space_closer_text: "\<forall>c\<in>set w. is_space c \<Longrightarrow> closer_text w \<and> count w RBRACE = 0"
  by (auto simp: closer_text_def count_zero_iff)

lemma brace_balance_ok: "brace_balance b = (ok, opens, closes) \<Longrightarrow> ok = (opens = closes)"
  by (auto simp: brace_balance_code_text)

lemma brace_balance_rstrip:
  assumes "brace_balance block = (ok, opens, closes)"
  shows "brace_balance (rstrip block) = (ok, opens, closes)"
proof -
  obtain w where w: "block = rstrip block @ w" "\<forall>c\<in>set w. is_space c"
    using rstrip_decomp by blast
  obtain ok' o' c' where b: "brace_balance (rstrip block) = (ok', o', c')"
    by (cases "brace_balance (rstrip block)") auto
  from w(2) have nr: "RBRACE \<notin> set (takeWhile (\<lambda>c. \<not> is_linebreak c) w)"
    using not_space_RBRACE(1) by (blast dest: set_takeWhileD)
  from space_closer_text [OF w(2)] have cw: "closer_text w" "count w RBRACE = 0" by simp_all
  have "brace_balance (rstrip block @ w) = (o' = c' + count w RBRACE, o', c' + count w RBRACE)"
    using rstrip_last cw(1) _ b by (rule brace_balance_append) (simp add: nr)
  with w(1) cw(2) assms have "o' = opens" "c' = closes" by simp_all
  with b brace_balance_ok [OF b] brace_balance_ok [OF assms] show ?thesis by simp
qed

text \<open>The appended closers balance the block.\<close>

lemma append_fix_balanced:
  assumes "brace_balance block = (ok, opens, closes)" and "closes < opens"
  shows "brace_balance (rstrip block @ (LF # replicate (opens - closes) RBRACE) @ [LF])
           = (True, opens, opens)"
proof -
  let ?s = "(LF # replicate (opens - closes) RBRACE) @ [LF]"
  have c: "closer_text ?s" by (auto simp: closer_text_def)
  have n: "count ?s RBRACE = opens - closes"
    by (simp add: count_def)
  have h: "RBRACE \<notin> set (takeWhile (\<lambda>c. \<not> is_linebreak c) ?s)"
    by simp
  have "brace_balance (rstrip block @ ?s)
      = (opens = closes + count ?s RBRACE, opens, closes + count ?s RBRACE)"
    using rstrip_last c _ brace_balance_rstrip [OF assms(1)]
    by (rule brace_balance_append) (simp only: h simp_thms)
  with assms(2) show ?thesis unfolding n by simp
qed

lemma validate_append:
  assumes "ensure_starts_with_if_block name block start_literal = Inr ()"
    and "brace_balance block = (ok, opens, closes)" and "closes < opens"
  shows "validate_and_maybe_fix True name block start_literal
           = Inr (rstrip block @ (LF # replicate (opens - closes) RBRACE) @ [LF])"
    and "validate_and_maybe_fix False name block start_literal
           = Inl (BraceMismatch name opens closes)"
proof -
  from brace_balance_ok [OF assms(2)] assms(3) have ok: "\<not> ok" by simp
  have d: "nat (int opens - int closes) = opens - closes" by simp
  show "validate_and_maybe_fix True name block start_literal
           = Inr (rstrip block @ (LF # replicate (opens - closes) RBRACE) @ [LF])"
    using assms ok append_fix_balanced [OF assms(2,3)]
    by (simp add: validate_and_maybe_fix_def Let_def d del: append.simps replicate.simps)
  show "validate_and_maybe_fix False name block start_literal
           = Inl (BraceMismatch name opens closes)"
    using assms ok by (simp add: validate_and_maybe_fix_def Let_def)
qed

text \<open>The loop that trims closers.\<close>

lemma endswith_closer: "endswith t (str ''}'') \<longleftrightarrow> t \<noteq> [] \<and> last t = RBRACE"
  by (cases t rule: rev_cases) (auto simp: endswith_def startswith_def str_def)

lemma trim_loop_spec:
  "trim_loop need k t0 = (k', t') \<Longrightarrow>
     k \<le> k' \<and> (k \<le> need \<longrightarrow> k' \<le> need)
     \<and> (k' < need \<longrightarrow> \<not> endswith t' (str ''}''))
     \<and> (\<exists>s. t0 = t' @ s \<and> closer_text s \<and> count s RBRACE = k' - k)
     \<and> (t0 = [] \<or> \<not> is_space (last t0) \<longrightarrow> t' = [] \<or> \<not> is_space (last t'))"
proof (induction need k t0 rule: trim_loop.induct)
  case (1 need k t0)
  show ?case
  proof (cases "k < need \<and> endswith t0 (str ''}'')")
    case False
    with 1(2) have "k' = k" "t' = t0" by (simp_all add: trim_loop.simps)
    with False show ?thesis by (auto simp: closer_text_def count_def)
  next
    case True
    let ?t1 = "rstrip (butlast t0)"
    from True 1(2) have r: "trim_loop need (Suc k) ?t1 = (k', t')"
      by (simp add: trim_loop.simps)
    from 1(1) [OF True r] obtain s where
      ih: "Suc k \<le> k'" "Suc k \<le> need \<longrightarrow> k' \<le> need"
        "k' < need \<longrightarrow> \<not> endswith t' (str ''}'')"
        "?t1 = t' @ s" "closer_text s" "count s RBRACE = k' - Suc k"
        "?t1 = [] \<or> \<not> is_space (last ?t1) \<longrightarrow> t' = [] \<or> \<not> is_space (last t')"
      by blast
    obtain w where w: "butlast t0 = ?t1 @ w" "\<forall>c\<in>set w. is_space c"
      using rstrip_decomp by blast
    from True have t0: "t0 = butlast t0 @ [RBRACE]"
      by (metis endswith_closer append_butlast_last_id)
    have "t0 = t' @ (s @ w @ [RBRACE])"
      using t0 w(1) ih(4) by (metis append_assoc)
    moreover have "closer_text (s @ w @ [RBRACE])"
      using ih(5) w(2) by (auto simp: closer_text_def)
    moreover have "count (s @ w @ [RBRACE]) RBRACE = k' - k"
      using ih(1,6) space_closer_text [OF w(2)] by (simp add: count_Cons)
    ultimately have "\<exists>s. t0 = t' @ s \<and> closer_text s \<and> count s RBRACE = k' - k"
      by blast
    with ih(1,2,3,7) True rstrip_last [of "butlast t0"] show ?thesis by auto
  qed
qed

lemma trim_decomp:
  assumes "trim_loop need 0 (rstrip block) = (trimmed, t)"
  shows "\<exists>s. block = t @ s \<and> closer_text s \<and> count s RBRACE = trimmed"
    and "t = [] \<or> \<not> is_space (last t)"
    and "trimmed \<le> need"
    and "trimmed < need \<Longrightarrow> \<not> endswith t (str ''}'')"
proof -
  from trim_loop_spec [OF assms] obtain s where
    s: "rstrip block = t @ s" "closer_text s" "count s RBRACE = trimmed"
    and l: "t = [] \<or> \<not> is_space (last t)" and n: "trimmed \<le> need"
    and e: "trimmed < need \<longrightarrow> \<not> endswith t (str ''}'')"
    using rstrip_last [of block] by auto
  obtain w where w: "block = rstrip block @ w" "\<forall>c\<in>set w. is_space c"
    using rstrip_decomp by blast
  have "block = t @ (s @ w)" using s(1) w(1) by (metis append_assoc)
  moreover have "closer_text (s @ w)" using s(2) w(2) by (auto simp: closer_text_def)
  moreover have "count (s @ w) RBRACE = trimmed"
    using s(3) space_closer_text [OF w(2)] by simp
  ultimately show "\<exists>s. block = t @ s \<and> closer_text s \<and> count s RBRACE = trimmed" by blast
  show "t = [] \<or> \<not> is_space (last t)" by (rule l)
  show "trimmed \<le> need" by (rule n)
  show "trimmed < need \<Longrightarrow> \<not> endswith t (str ''}'')" using e by simp
qed

text \<open>What validation returns for a block with surplus closers.\<close>

lemma validate_trim:
  assumes "ensure_starts_with_if_block name block start_literal = Inr ()"
    and "brace_balance block = (ok, opens, closes)" and "opens < closes"
    and "trim_loop (closes - opens) 0 (rstrip block) = (trimmed, t)"
  shows "validate_and_maybe_fix auto_fix name block start_literal
           = (if trimmed = closes - opens \<and> fst (brace_balance t) then Inr t
              else Inl (SurplusNotAtEOF name opens closes))"
proof -
  from brace_balance_ok [OF assms(2)] assms(3) have ok: "\<not> ok" by simp
  have d: "nat (int closes - int opens) = closes - opens" by simp
  show ?thesis
    using assms ok by (simp add: validate_and_maybe_fix_def Let_def d)
qed

lemma trim_fix_balanced:
  assumes bb: "brace_balance block = (ok, opens, closes)" and lt: "opens < closes"
    and tl: "trim_loop (closes - opens) 0 (rstrip block) = (closes - opens, t)"
    and h: "t = [] \<or> is_code_line (last (splitlines t))
            \<or> RBRACE \<notin> set (takeWhile (\<lambda>c. \<not> is_linebreak c) (drop (length t) block))"
  shows "brace_balance t = (True, opens, opens)"
proof -
  from trim_decomp(1,2) [OF tl] obtain s where
    s: "block = t @ s" "closer_text s" "count s RBRACE = closes - opens"
    and l: "t = [] \<or> \<not> is_space (last t)" by blast
  from s(1) have "drop (length t) block = s" by simp
  with h have h': "t = [] \<or> is_code_line (last (splitlines t))
            \<or> RBRACE \<notin> set (takeWhile (\<lambda>c. \<not> is_linebreak c) s)" by simp
  obtain ok' o' c' where b: "brace_balance t = (ok', o', c')"
    by (cases "brace_balance t") auto
  from brace_balance_append [OF l s(2) h' b] s(1,3) bb
  have "o' = opens" "c' + (closes - opens) = closes" by simp_all
  with lt have "o' = opens" "c' = opens" by simp_all
  with b brace_balance_ok [OF b] show ?thesis by simp
qed

lemma validate_result_balanced:
  "validate_and_maybe_fix auto_fix name block start_literal = Inr r \<Longrightarrow> fst (brace_balance r)"
proof -
  assume a: "validate_and_maybe_fix auto_fix name block start_literal = Inr r"
  obtain ok opens closes where b: "brace_balance block = (ok, opens, closes)"
    by (cases "brace_balance block") auto
  obtain trimmed t where tl:
    "trim_loop (nat (- (int opens - int closes))) 0 (rstrip block) = (trimmed, t)"
    by (cases "trim_loop (nat (- (int opens - int closes))) 0 (rstrip block)") auto
  obtain ok2 o2 c2 where f: "brace_balance
      (rstrip block @ (LF # replicate (nat (int opens - int closes)) RBRACE) @ [LF]) = (ok2, o2, c2)"
    by (cases "brace_balance
      (rstrip block @ (LF # replicate (nat (int opens - int closes)) RBRACE) @ [LF])") auto
  from a b tl f show ?thesis
    by (simp add: validate_and_maybe_fix_def Let_def split: sum.splits if_splits
          del: append.simps replicate.simps)
qed



text \<open>Blocks under the guard of the Student section: one closer short, two closers too
  many, a surplus closer that is not at the end, and a last closer on a markup line.\<close>

definition under_closed :: pystr where
  "under_closed =
     str ''@if (!isInitializedAsStudentUser)'' @ [LF] @ str ''{'' @ [LF]
       @ str ''{'' @ [LF] @ str ''</div>'' @ [LF] @ str ''}  '' @ [LF]"

definition over_closed :: pystr where
  "over_closed =
     str ''@if (!isInitializedAsStudentUser)'' @ [LF] @ str ''{'' @ [LF]
       @ str ''</div>'' @ [LF] @ str ''}'' @ [LF] @ str ''}'' @ [LF] @ str '' } '' @ [LF]"

definition closer_inside :: pystr where
  "closer_inside =
     str ''@if (!isInitializedAsStudentUser)'' @ [LF] @ str ''{'' @ [LF]
       @ str ''}'' @ [LF] @ str ''}'' @ [LF] @ str ''</div>''"

definition uncounted_closer :: pystr where
  "uncounted_closer =
     str ''@if (!isInitializedAsStudentUser)'' @ [LF] @ str ''{'' @ [LF]
       @ str ''}'' @ [LF] @ str ''}'' @ [LF] @ str ''</div>}''"

definition trimmed_block :: pystr where
  "trimmed_block =
     str ''@if (!isInitializedAsStudentUser)'' @ [LF] @ str ''{'' @ [LF]
       @ str ''</div>'' @ [LF] @ str ''}''"

lemma under_closed_ensure:
  "ensure_starts_with_if_block ''Student'' under_closed student_literal = Inr ()"
  by (simp add: under_closed_def student_literal_def ev)

lemma under_closed_balance: "brace_balance under_closed = (False, 2, 1)"
  by (simp add: under_closed_def ev)

lemma over_closed_ensure:
  "ensure_starts_with_if_block ''Student'' over_closed student_literal = Inr ()"
  by (simp add: over_closed_def student_literal_def ev)

lemma over_closed_balance: "brace_balance over_closed = (False, 1, 3)"
  by (simp add: over_closed_def ev)

lemma over_closed_trim: "trim_loop 2 0 (rstrip over_closed) = (2, trimmed_block)"
  by (simp add: over_closed_def trimmed_block_def ev)

lemma trimmed_block_last: "is_code_line (last (splitlines trimmed_block))"
  by (simp add: trimmed_block_def ev)

lemma closer_inside_ensure:
  "ensure_starts_with_if_block ''Student'' closer_inside student_literal = Inr ()"
  by (simp add: closer_inside_def student_literal_def ev)

lemma closer_inside_balance: "brace_balance closer_inside = (False, 1, 2)"
  by (simp add: closer_inside_def ev)

lemma closer_inside_trim: "trim_loop 1 0 (rstrip closer_inside) = (0, closer_inside)"
  by (simp add: closer_inside_def ev)

definition uncounted_trimmed :: pystr where
  "uncounted_trimmed =
     str ''@if (!isInitializedAsStudentUser)'' @ [LF] @ str ''{'' @ [LF]
       @ str ''}'' @ [LF] @ str ''}'' @ [LF] @ str ''</div>''"

lemma uncounted_closer_ensure:
  "ensure_starts_with_if_block ''Student'' uncounted_closer student_literal = Inr ()"
  by (simp add: uncounted_closer_def student_literal_def ev)

lemma uncounted_closer_balance: "brace_balance uncounted_closer = (False, 1, 2)"
  by (simp add: uncounted_closer_def ev)

lemma uncounted_closer_trim:
  "trim_loop (2 - 1) 0 (rstrip uncounted_closer) = (1, uncounted_trimmed)"
  by (simp add: uncounted_closer_def uncounted_trimmed_def ev)

lemma uncounted_trimmed_balance: "brace_balance uncounted_trimmed = (False, 1, 2)"
  by (simp add: uncounted_trimmed_def ev)

lemma uncounted_closer_end: "endswith uncounted_closer (str ''}'')"
  by (simp add: uncounted_closer_def ev)


section \<open>C5: appending the missing closers\<close>

text \<open>
  C5.  Let \<open>brace_balance\<close> report \<open>k = opens - closes > 0\<close> missing closers on a block
  that is the text \<open>t\<close> followed by the whitespace \<open>w\<close>, where \<open>t\<close> does not end in
  whitespace.  With auto-repair permitted, \<open>validate_and_maybe_fix\<close> returns \<open>t\<close>, a line
  feed, exactly \<open>k\<close> closing braces and a line feed, and \<open>brace_balance\<close> reports this text
  balanced.  No call, with or without the flag, ever returns a block that \<open>brace_balance\<close>
  reports unbalanced.
\<close>

theorem repair_appends_missing_closers:
  assumes "ensure_starts_with_if_block name block start_literal = Inr ()"
    and "brace_balance block = (ok, opens, closes)" and "closes < opens"
    and "block = t @ w" and "\<forall>x\<in>set w. is_space x" and "t = [] \<or> \<not> is_space (last t)"
  shows "validate_and_maybe_fix True name block start_literal
           = Inr (t @ (LF # replicate (opens - closes) RBRACE) @ [LF])
         \<and> brace_balance (t @ (LF # replicate (opens - closes) RBRACE) @ [LF])
             = (True, opens, opens)
         \<and> (validate_and_maybe_fix auto_fix name block start_literal = Inr r
              \<longrightarrow> fst (brace_balance r))"
proof -
  have r: "rstrip block = t" using rstrip_eq [OF assms(4,5,6)] .
  show ?thesis
    using validate_append(1) [OF assms(1,2,3)] append_fix_balanced [OF assms(2,3)]
      validate_result_balanced [of auto_fix name block start_literal r]
    unfolding r by blast
qed

theorem repair_appends_missing_closers_witness:
  "ensure_starts_with_if_block ''Student'' under_closed student_literal = Inr ()
   \<and> brace_balance under_closed = (False, 2, 1)
   \<and> under_closed
       = (str ''@if (!isInitializedAsStudentUser)'' @ [LF] @ str ''{'' @ [LF]
           @ str ''{'' @ [LF] @ str ''</div>'' @ [LF] @ str ''}'') @ (str ''  '' @ [LF])
   \<and> validate_and_maybe_fix True ''Student'' under_closed student_literal
       = Inr (str ''@if (!isInitializedAsStudentUser)'' @ [LF] @ str ''{'' @ [LF]
           @ str ''{'' @ [LF] @ str ''</div>'' @ [LF] @ str ''}'' @ [LF] @ str ''}'' @ [LF])
   \<and> brace_balance (str ''@if (!isInitializedAsStudentUser)'' @ [LF] @ str ''{'' @ [LF]
           @ str ''{'' @ [LF] @ str ''</div>'' @ [LF] @ str ''}'' @ [LF] @ str ''}'' @ [LF])
       = (True, 2, 2)"
proof -
  have l: "(1::nat) < 2" by simp
  have d: "under_closed
       = (str ''@if (!isInitializedAsStudentUser)'' @ [LF] @ str ''{'' @ [LF]
           @ str ''{'' @ [LF] @ str ''</div>'' @ [LF] @ str ''}'') @ (str ''  '' @ [LF])"
    by (simp add: under_closed_def str_def)
  have w: "\<forall>x\<in>set (str ''  '' @ [LF]). is_space x" by (simp add: ev)
  have e: "(str ''@if (!isInitializedAsStudentUser)'' @ [LF] @ str ''{'' @ [LF]
           @ str ''{'' @ [LF] @ str ''</div>'' @ [LF] @ str ''}'') = []
         \<or> \<not> is_space (last (str ''@if (!isInitializedAsStudentUser)'' @ [LF] @ str ''{'' @ [LF]
           @ str ''{'' @ [LF] @ str ''</div>'' @ [LF] @ str ''}''))"
    by (simp add: ev)
  from repair_appends_missing_closers [OF under_closed_ensure under_closed_balance l d w e]
  show ?thesis
    using under_closed_ensure under_closed_balance d by (simp add: str_def)
qed



section \<open>C6: trimming the surplus closers\<close>

text \<open>
  C6 as stated: when \<open>closes\<close> exceeds \<open>opens\<close> by \<open>k\<close> and \<open>k\<close> closing braces sit at the
  end of the block, the repair trims them and the result balances.  The block
  \<open>uncounted_closer\<close> ends with one closing brace and is over-closed by one, but the brace
  at its end stands on the markup line \<open></div>}\<close>, which \<open>brace_balance\<close> does not
  count: the loop trims it, the re-check still reports one opener and two closers, and
  the run fails.
\<close>

theorem trailing_closer_not_trimmed:
  "brace_balance uncounted_closer = (False, 1, 2)
   \<and> endswith uncounted_closer (str ''}'')
   \<and> trim_loop (2 - 1) 0 (rstrip uncounted_closer) = (1, uncounted_trimmed)
   \<and> ensure_starts_with_if_block ''Student'' uncounted_closer student_literal = Inr ()
   \<and> validate_and_maybe_fix True ''Student'' uncounted_closer student_literal
       = Inl (SurplusNotAtEOF ''Student'' 1 2)
   \<and> validate_and_maybe_fix False ''Student'' uncounted_closer student_literal
       = Inl (SurplusNotAtEOF ''Student'' 1 2)"
proof -
  have l: "(1::nat) < 2" by simp
  note v = validate_trim [OF uncounted_closer_ensure uncounted_closer_balance l
      uncounted_closer_trim]
  show ?thesis
    using uncounted_closer_balance uncounted_closer_end uncounted_closer_trim
      uncounted_closer_ensure v [of True] v [of False]
    by (simp add: uncounted_trimmed_balance)
qed

text \<open>
  C6, amended.  Let \<open>k = closes - opens > 0\<close> and let the loop trim \<open>trimmed\<close> closers and
  leave \<open>t\<close>.  Then \<open>t\<close> is the block without a tail of whitespace and exactly \<open>trimmed\<close>
  closing braces: nothing inside the block is removed.  If the loop finds all \<open>k\<close>
  closers and they stand on lines that \<open>brace_balance\<close> counts (the line \<open>t\<close> ends on is a
  code line, or no trimmed closer shares that line), the repair returns \<open>t\<close> and \<open>t\<close> is
  balanced.  If fewer than \<open>k\<close> closers are at the end, the repair fails.  Whatever is
  returned is \<open>t\<close>, with all \<open>k\<close> closers trimmed, and balanced.
\<close>

theorem repair_trims_surplus_closers:
  assumes "ensure_starts_with_if_block name block start_literal = Inr ()"
    and "brace_balance block = (ok, opens, closes)" and "opens < closes"
    and "trim_loop (closes - opens) 0 (rstrip block) = (trimmed, t)"
  shows "(\<exists>s. block = t @ s \<and> closer_text s \<and> count s RBRACE = trimmed)
         \<and> (trimmed = closes - opens
              \<and> (t = [] \<or> is_code_line (last (splitlines t))
                  \<or> RBRACE \<notin> set (takeWhile (\<lambda>c. \<not> is_linebreak c) (drop (length t) block)))
              \<longrightarrow> validate_and_maybe_fix auto_fix name block start_literal = Inr t
                  \<and> brace_balance t = (True, opens, opens))
         \<and> (trimmed < closes - opens
              \<longrightarrow> \<not> endswith t (str ''}'')
                  \<and> validate_and_maybe_fix auto_fix name block start_literal
                      = Inl (SurplusNotAtEOF name opens closes))
         \<and> (validate_and_maybe_fix auto_fix name block start_literal = Inr r
              \<longrightarrow> r = t \<and> trimmed = closes - opens \<and> fst (brace_balance r))"
proof (intro conjI impI)
  show "\<exists>s. block = t @ s \<and> closer_text s \<and> count s RBRACE = trimmed"
    using trim_decomp(1) [OF assms(4)] .
next
  assume a: "trimmed = closes - opens
      \<and> (t = [] \<or> is_code_line (last (splitlines t))
          \<or> RBRACE \<notin> set (takeWhile (\<lambda>c. \<not> is_linebreak c) (drop (length t) block)))"
  with assms(4) have tl: "trim_loop (closes - opens) 0 (rstrip block) = (closes - opens, t)"
    by simp
  from a have h: "t = [] \<or> is_code_line (last (splitlines t))
          \<or> RBRACE \<notin> set (takeWhile (\<lambda>c. \<not> is_linebreak c) (drop (length t) block))"
    by simp
  show b: "brace_balance t = (True, opens, opens)"
    using trim_fix_balanced [OF assms(2,3) tl h] .
  show "validate_and_maybe_fix auto_fix name block start_literal = Inr t"
    using validate_trim [OF assms] a b by simp
next
  assume a: "trimmed < closes - opens"
  show "\<not> endswith t (str ''}'')"
    using trim_decomp(4) [OF assms(4) a] .
  show "validate_and_maybe_fix auto_fix name block start_literal
          = Inl (SurplusNotAtEOF name opens closes)"
    using validate_trim [OF assms] a by simp
next
  assume a: "validate_and_maybe_fix auto_fix name block start_literal = Inr r"
  then show "r = t" "trimmed = closes - opens" "fst (brace_balance r)"
    using validate_trim [OF assms, of auto_fix] by (auto split: if_splits)
qed

theorem repair_trims_surplus_closers_witness:
  "ensure_starts_with_if_block ''Student'' over_closed student_literal = Inr ()
   \<and> brace_balance over_closed = (False, 1, 3) \<and> (1::nat) < 3
   \<and> trim_loop (3 - 1) 0 (rstrip over_closed) = (2, trimmed_block)
   \<and> is_code_line (last (splitlines trimmed_block))
   \<and> validate_and_maybe_fix False ''Student'' over_closed student_literal = Inr trimmed_block
   \<and> brace_balance trimmed_block = (True, 1, 1)
   \<and> ensure_starts_with_if_block ''Student'' closer_inside student_literal = Inr ()
   \<and> brace_balance closer_inside = (False, 1, 2)
   \<and> trim_loop (2 - 1) 0 (rstrip closer_inside) = (0, closer_inside)
   \<and> validate_and_maybe_fix False ''Student'' closer_inside student_literal
       = Inl (SurplusNotAtEOF ''Student'' 1 2)"
proof -
  have t1: "trim_loop (3 - 1) 0 (rstrip over_closed) = (2, trimmed_block)"
    using over_closed_trim by simp
  have t2: "trim_loop (2 - 1) 0 (rstrip closer_inside) = (0, closer_inside)"
    using closer_inside_trim by simp
  have l1: "(1::nat) < 3" and l2: "(1::nat) < 2" by simp_all
  note a = repair_trims_surplus_closers [OF over_closed_ensure over_closed_balance l1 t1,
      of False trimmed_block]
  note b = repair_trims_surplus_closers [OF closer_inside_ensure closer_inside_balance l2 t2,
      of False closer_inside]
  from a trimmed_block_last
  have "validate_and_maybe_fix False ''Student'' over_closed student_literal = Inr trimmed_block"
    and "brace_balance trimmed_block = (True, 1, 1)"
    by simp_all
  moreover from b
  have "validate_and_maybe_fix False ''Student'' closer_inside student_literal
       = Inl (SurplusNotAtEOF ''Student'' 1 2)"
    by simp
  ultimately show ?thesis
    using t1 t2 trimmed_block_last over_closed_ensure over_closed_balance closer_inside_ensure
      closer_inside_balance
    by simp
qed


section \<open>C9: the flag gates the appending repair only\<close>

text \<open>
  A block under the guard of the Student section with two closers too many, whose last
  two closing braces stand on the markup line that ends the closing structure.
\<close>

definition markup_closers :: pystr where
  "markup_closers =
     str ''@if (!isInitializedAsStudentUser)'' @ [LF] @ str ''{'' @ [LF]
       @ str ''}'' @ [LF] @ str ''}'' @ [LF] @ str ''}'' @ [LF]
       @ str ''</div></div></div></div>}}''"

definition markup_trimmed :: pystr where
  "markup_trimmed =
     str ''@if (!isInitializedAsStudentUser)'' @ [LF] @ str ''{'' @ [LF]
       @ str ''}'' @ [LF] @ str ''}'' @ [LF] @ str ''}'' @ [LF]
       @ str ''</div></div></div></div>''"

lemma markup_closers_ensure:
  "ensure_starts_with_if_block ''Student'' markup_closers student_literal = Inr ()"
  by (simp add: markup_closers_def student_literal_def ev)

lemma markup_closers_balance: "brace_balance markup_closers = (False, 1, 3)"
  by (simp add: markup_closers_def ev)

lemma markup_closers_trim:
  "trim_loop (3 - 1) 0 (rstrip markup_closers) = (2, markup_trimmed)"
  by (simp add: markup_closers_def markup_trimmed_def ev)

lemma markup_trimmed_balance: "brace_balance markup_trimmed = (False, 1, 3)"
  by (simp add: markup_trimmed_def ev)

lemma markup_closers_end: "endswith markup_closers (str ''}}'')"
  by (simp add: markup_closers_def ev)

text \<open>
  C9 as stated: a block with more closers than openers and the surplus at its end is
  trimmed and returned with the flag off.  \<open>markup_closers\<close> has one opener and three
  closers on the lines that \<open>brace_balance\<close> counts, and ends with two closing braces;
  these stand on a markup line.  With the flag off the loop trims them, the re-check
  still reports one opener and three closers, and the run fails.
\<close>

theorem surplus_on_markup_line_fails:
  "brace_balance markup_closers = (False, 1, 3)
   \<and> endswith markup_closers (str ''}}'')
   \<and> validate_and_maybe_fix False ''Student'' markup_closers student_literal
       = Inl (SurplusNotAtEOF ''Student'' 1 3)"
proof -
  have l: "(1::nat) < 3" by simp
  note v = validate_trim [OF markup_closers_ensure markup_closers_balance l
      markup_closers_trim]
  show ?thesis
    using markup_closers_balance markup_closers_end v [of False]
    by (simp add: markup_trimmed_balance)
qed

text \<open>
  C9, amended.  For a block with more closers than openers the result does not depend on
  \<open>AUTO_FIX_BRACES\<close>; when the loop finds all the surplus closers at the end of the block
  and they stand on lines that \<open>brace_balance\<close> counts (the line the trimmed text ends on
  is a code line, or no trimmed closer shares that line), the trimmed block is returned
  with the flag off, and it is balanced.  For a block with fewer closers than openers the
  flag decides: off, the run fails with a brace mismatch; on, the closers are appended to
  the block without its trailing whitespace.
\<close>

theorem trimming_not_gated_by_flag:
  assumes "ensure_starts_with_if_block name block start_literal = Inr ()"
    and "brace_balance block = (ok, opens, closes)"
  shows "(opens < closes \<longrightarrow>
            validate_and_maybe_fix False name block start_literal
              = validate_and_maybe_fix True name block start_literal)
         \<and> (opens < closes
              \<and> trim_loop (closes - opens) 0 (rstrip block) = (closes - opens, t)
              \<and> (t = [] \<or> is_code_line (last (splitlines t))
                  \<or> RBRACE \<notin> set (takeWhile (\<lambda>c. \<not> is_linebreak c) (drop (length t) block)))
              \<longrightarrow> validate_and_maybe_fix False name block start_literal = Inr t
                  \<and> brace_balance t = (True, opens, opens))
         \<and> (closes < opens \<longrightarrow>
              validate_and_maybe_fix False name block start_literal
                = Inl (BraceMismatch name opens closes)
              \<and> (\<exists>u w. block = u @ w \<and> (\<forall>x\<in>set w. is_space x)
                    \<and> (u = [] \<or> \<not> is_space (last u))
                    \<and> validate_and_maybe_fix True name block start_literal
                        = Inr (u @ (LF # replicate (opens - closes) RBRACE) @ [LF])))"
proof (intro conjI impI)
  assume lt: "opens < closes"
  obtain trimmed u where tl: "trim_loop (closes - opens) 0 (rstrip block) = (trimmed, u)"
    by (cases "trim_loop (closes - opens) 0 (rstrip block)") auto
  show "validate_and_maybe_fix False name block start_literal
          = validate_and_maybe_fix True name block start_literal"
    by (simp add: validate_trim [OF assms lt tl])
next
  assume a: "opens < closes
      \<and> trim_loop (closes - opens) 0 (rstrip block) = (closes - opens, t)
      \<and> (t = [] \<or> is_code_line (last (splitlines t))
          \<or> RBRACE \<notin> set (takeWhile (\<lambda>c. \<not> is_linebreak c) (drop (length t) block)))"
  then have lt: "opens < closes"
    and tl: "trim_loop (closes - opens) 0 (rstrip block) = (closes - opens, t)"
    and h: "t = [] \<or> is_code_line (last (splitlines t))
          \<or> RBRACE \<notin> set (takeWhile (\<lambda>c. \<not> is_linebreak c) (drop (length t) block))"
    by simp_all
  show b: "brace_balance t = (True, opens, opens)"
    using trim_fix_balanced [OF assms(2) lt tl h] .
  show "validate_and_maybe_fix False name block start_literal = Inr t"
    using validate_trim [OF assms lt tl] b by simp
next
  assume lt: "closes < opens"
  show "validate_and_maybe_fix False name block start_literal
          = Inl (BraceMismatch name opens closes)"
    using validate_append(2) [OF assms lt] .
  obtain w where w: "block = rstrip block @ w" "\<forall>x\<in>set w. is_space x"
    using rstrip_decomp [of block] by blast
  show "\<exists>u w. block = u @ w \<and> (\<forall>x\<in>set w. is_space x)
          \<and> (u = [] \<or> \<not> is_space (last u))
          \<and> validate_and_maybe_fix True name block start_literal
              = Inr (u @ (LF # replicate (opens - closes) RBRACE) @ [LF])"
    using w rstrip_last [of block] validate_append(1) [OF assms lt] by blast
qed

theorem trimming_not_gated_by_flag_witness:
  "ensure_starts_with_if_block ''Student'' over_closed student_literal = Inr ()
   \<and> brace_balance over_closed = (False, 1, 3) \<and> (1::nat) < 3
   \<and> trim_loop (3 - 1) 0 (rstrip over_closed) = (3 - 1, trimmed_block)
   \<and> is_code_line (last (splitlines trimmed_block))
   \<and> validate_and_maybe_fix False ''Student'' over_closed student_literal = Inr trimmed_block
   \<and> validate_and_maybe_fix True ''Student'' over_closed student_literal = Inr trimmed_block
   \<and> ensure_starts_with_if_block ''Student'' under_closed student_literal = Inr ()
   \<and> brace_balance under_closed = (False, 2, 1) \<and> (1::nat) < 2
   \<and> validate_and_maybe_fix False ''Student'' under_closed student_literal
       = Inl (BraceMismatch ''Student'' 2 1)"
proof -
  have t1: "trim_loop (3 - 1) 0 (rstrip over_closed) = (3 - 1, trimmed_block)"
    using over_closed_trim by simp
  have l1: "(1::nat) < 3" and l2: "(1::nat) < 2" by simp_all
  note a = trimming_not_gated_by_flag [OF over_closed_ensure over_closed_balance,
      of trimmed_block]
  note b = trimming_not_gated_by_flag [OF under_closed_ensure under_closed_balance]
  note a1 = a [THEN conjunct1, THEN mp, OF l1]
  note a2 = a [THEN conjunct2, THEN conjunct1, THEN mp,
      OF conjI [OF l1 conjI [OF t1 disjI2 [OF disjI1 [OF trimmed_block_last]]]]]
  note b3 = b [THEN conjunct2, THEN conjunct2, THEN mp, OF l2]
  have f: "validate_and_maybe_fix False ''Student'' over_closed student_literal = Inr trimmed_block"
    using a2 by (rule conjunct1)
  have t: "validate_and_maybe_fix True ''Student'' over_closed student_literal = Inr trimmed_block"
    using a1 f by (rule subst)
  show ?thesis
    by (intro conjI over_closed_ensure over_closed_balance l1 t1 trimmed_block_last f t
          under_closed_ensure under_closed_balance l2 b3 [THEN conjunct1])
qed

end
